theory Spec2Isabelle
  imports Complex_Main
begin

section \<open>Data model (src/main.py, lines 16-51)\<close>

text \<open>
  A position is the Python tuple \<open>(x, y)\<close> of two unbounded integers.
\<close>

type_synonym pos = "int \<times> int"

datatype CellType = EMPTY | OBSTACLE | START | END | PATH | OPEN | CLOSED

text \<open>
  The dataclass \<open>Node\<close>. Python floats are idealised as reals. The field
  \<open>timestamp\<close> holds a reading of the wall clock, is excluded from comparison
  and is never read by the search; it is left out.
\<close>

datatype Node =
  Node (f_score: real) (position: pos) (g_score: real) (h_score: real) (parent: "Node option")

text \<open>
  \<open>AlgorithmStats\<close>: the counters are Python integers, the cost and the time floats.
\<close>

record AlgorithmStats =
  nodes_explored :: int
  nodes_in_open :: int
  max_open_size :: int
  path_length :: int
  path_cost :: real
  execution_time :: real
  iterations :: int

definition AlgorithmStats_init :: AlgorithmStats where
  "AlgorithmStats_init =
     \<lparr>nodes_explored = 0, nodes_in_open = 0, max_open_size = 0, path_length = 0,
      path_cost = 0, execution_time = 0, iterations = 0\<rparr>"

section \<open>Grid (src/main.py, lines 53-108)\<close>

text \<open>
  The attributes \<open>start\<close> and \<open>end\<close> of the class are the fields
  \<open>grid_start\<close> and \<open>grid_end\<close>. \<open>cells\<close> is a list of rows, indexed
  \<open>cells[y][x]\<close>.
\<close>

record Grid =
  width :: int
  height :: int
  cells :: "CellType list list"
  grid_start :: "pos option"
  grid_end :: "pos option"

text \<open>
  The constructor: \<open>range\<close> of a negative number is empty, as \<open>nat\<close> of a
  negative integer is 0.
\<close>

definition Grid_init :: "int \<Rightarrow> int \<Rightarrow> Grid" where
  "Grid_init w h =
     \<lparr>width = w, height = h, cells = replicate (nat h) (replicate (nat w) EMPTY),
      grid_start = None, grid_end = None\<rparr>"

text \<open>
  The shape every grid built by the constructor and changed by \<open>set_cell\<close> has:
  \<open>height\<close> rows of \<open>width\<close> cells. On such a grid the read
  \<open>cells[y][x]\<close> of a valid position is in range.
\<close>

definition wf_grid :: "Grid \<Rightarrow> bool" where
  "wf_grid g \<longleftrightarrow>
     length (cells g) = nat (height g) \<and> list_all (\<lambda>row. length row = nat (width g)) (cells g)"

definition is_valid :: "Grid \<Rightarrow> pos \<Rightarrow> bool" where
  "is_valid g p = (case p of (x, y) \<Rightarrow> 0 \<le> x \<and> x < width g \<and> 0 \<le> y \<and> y < height g)"

definition is_walkable :: "Grid \<Rightarrow> pos \<Rightarrow> bool" where
  "is_walkable g p =
     (if \<not> is_valid g p then False
      else case p of (x, y) \<Rightarrow> cells g ! nat y ! nat x \<noteq> OBSTACLE)"

definition directions :: "(int \<times> int) list" where
  "directions = [(0, -1), (0, 1), (-1, 0), (1, 0), (-1, -1), (-1, 1), (1, -1), (1, 1)]"

text \<open>
  One round of the loop of \<open>get_neighbors\<close> over \<open>directions\<close>; the
  \<open>continue\<close> of the source leaves \<open>neighbors\<close> as it is.
\<close>

definition neighbor_step :: "Grid \<Rightarrow> pos \<Rightarrow> int \<times> int \<Rightarrow> pos list \<Rightarrow> pos list" where
  "neighbor_step g p d neighbors =
     (case p of (x, y) \<Rightarrow> case d of (dx, dy) \<Rightarrow>
        let new_pos = (x + dx, y + dy) in
        if is_walkable g new_pos then
          if dx \<noteq> 0 \<and> dy \<noteq> 0
             \<and> \<not> (is_walkable g (x + dx, y) \<or> is_walkable g (x, y + dy))
          then neighbors
          else neighbors @ [new_pos]
        else neighbors)"

definition get_neighbors :: "Grid \<Rightarrow> pos \<Rightarrow> pos list" where
  "get_neighbors g p = fold (neighbor_step g p) directions []"

definition set_cell :: "Grid \<Rightarrow> pos \<Rightarrow> CellType \<Rightarrow> Grid" where
  "set_cell g p cell_type =
     (if is_valid g p
      then case p of (x, y) \<Rightarrow>
        g\<lparr>cells := (cells g)[nat y := (cells g ! nat y)[nat x := cell_type]]\<rparr>
      else g)"

definition get_cell :: "Grid \<Rightarrow> pos \<Rightarrow> CellType" where
  "get_cell g p =
     (if is_valid g p then case p of (x, y) \<Rightarrow> cells g ! nat y ! nat x else OBSTACLE)"

section \<open>Cost model (src/main.py, lines 114-129)\<close>

definition heuristic :: "pos \<Rightarrow> pos \<Rightarrow> real" where
  "heuristic pos1 pos2 =
     (case pos1 of (x1, y1) \<Rightarrow> case pos2 of (x2, y2) \<Rightarrow>
        sqrt (real_of_int ((x2 - x1) ^ 2 + (y2 - y1) ^ 2)))"

definition get_movement_cost :: "pos \<Rightarrow> pos \<Rightarrow> real" where
  "get_movement_cost pos1 pos2 =
     (case pos1 of (x1, y1) \<Rightarrow> case pos2 of (x2, y2) \<Rightarrow>
        if \<bar>x2 - x1\<bar> + \<bar>y2 - y1\<bar> = 2 then sqrt 2 else 1)"

section \<open>The frontier: heapq on tuples (f_score, counter, node)\<close>

type_synonym entry = "real \<times> nat \<times> Node"

text \<open>
  Python compares tuples lexicographically: the first components that differ decide.
  Two nodes are equal, and are ordered, by their \<open>f_score\<close> alone (the dataclass
  is declared with \<open>order=True\<close> and every other field with \<open>compare=False\<close>).
\<close>

definition entry_less :: "entry \<Rightarrow> entry \<Rightarrow> bool" where
  "entry_less a b =
     (case a of (f1, c1, n1) \<Rightarrow> case b of (f2, c2, n2) \<Rightarrow>
        if f1 \<noteq> f2 then f1 < f2
        else if c1 \<noteq> c2 then c1 < c2
        else f_score n1 < f_score n2)"

text \<open>
  The library module heapq is modelled by what it promises: \<open>heappush\<close> adds an
  entry, \<open>heappop\<close> removes and returns a least one. The list keeps the entries in
  the order of their insertion (the layout of the binary heap is not observable by
  the search, which reads the heap through \<open>heappop\<close>, \<open>len\<close> and its emptiness
  only). \<open>heappop\<close> is called on a non-empty heap only: the guard of the while loop.
\<close>

definition heappush :: "entry list \<Rightarrow> entry \<Rightarrow> entry list" where
  "heappush h e = h @ [e]"

fun least_entry :: "entry \<Rightarrow> entry list \<Rightarrow> entry" where
  "least_entry m [] = m"
| "least_entry m (e # es) = least_entry (if entry_less e m then e else m) es"

definition heappop :: "entry list \<Rightarrow> entry \<times> entry list" where
  "heappop h = (let m = least_entry (hd h) (tl h) in (m, remove1 m h))"

section \<open>Search state and observer\<close>

text \<open>
  The objects \<open>find_path\<close> works on: the grid it is given, its local variables, the
  statistics record (None when the caller passes none) and the state of the
  observer's own world.
\<close>

record 'o search_state =
  grid :: Grid
  open_set :: "entry list"
  counter :: nat
  g_scores :: "pos \<rightharpoonup> real"
  closed_set :: "pos set"
  node_map :: "pos \<rightharpoonup> Node"
  open_positions :: "pos set"
  stats :: "AlgorithmStats option"
  observer_state :: 'o

text \<open>
  The values handed to the callback. The callback is a procedure: its return value is
  discarded by \<open>find_path\<close>, and by the observation contract it reads its arguments
  only; it acts on a state of its own.
\<close>

datatype pyarg = PosSet "pos set" | PyNone | NodeTable "pos \<rightharpoonup> Node" | Position pos

type_synonym 'o observer = "pyarg list \<Rightarrow> 'o \<Rightarrow> 'o"

section \<open>find_path (src/main.py, lines 131-254)\<close>

text \<open>The loop of \<open>_reconstruct_path\<close> walks the parents; the result is reversed.\<close>

fun parent_chain :: "Node \<Rightarrow> pos list" where
  "parent_chain (Node f p gs h None) = [p]"
| "parent_chain (Node f p gs h (Some n)) = p # parent_chain n"

definition reconstruct_path :: "Node \<Rightarrow> pos list" where
  "reconstruct_path node = rev (parent_chain node)"

text \<open>Lines 177-180: the statistics at the head of an iteration.\<close>

definition stats_tick :: "nat \<Rightarrow> AlgorithmStats \<Rightarrow> AlgorithmStats" where
  "stats_tick n st =
     st\<lparr>iterations := iterations st + 1,
        nodes_in_open := int n,
        max_open_size := max (max_open_size st) (int n)\<rparr>"

text \<open>Lines 210-239: one round of the loop over the neighbours of \<open>current\<close>.\<close>

definition relax :: "pos \<Rightarrow> Node \<Rightarrow> pos \<Rightarrow> 'o search_state \<Rightarrow> 'o search_state" where
  "relax end_pos current neighbor_pos s =
     (if neighbor_pos \<in> closed_set s then s
      else
        let movement_cost = get_movement_cost (position current) neighbor_pos;
            tentative_g = g_score current + movement_cost
        in
          if (case g_scores s neighbor_pos of None \<Rightarrow> False | Some best \<Rightarrow> tentative_g \<ge> best)
          then s
          else
            let h = heuristic neighbor_pos end_pos;
                f = tentative_g + h;
                neighbor_node = Node f neighbor_pos tentative_g h (Some current)
            in s\<lparr>g_scores := (g_scores s)(neighbor_pos \<mapsto> tentative_g),
                  open_set := heappush (open_set s) (f, counter s, neighbor_node),
                  counter := counter s + 1,
                  open_positions := insert neighbor_pos (open_positions s),
                  node_map := (node_map s)(neighbor_pos \<mapsto> neighbor_node)\<rparr>)"

text \<open>
  One iteration of the while loop (lines 176-239). It ends with \<open>continue\<close> or at the
  end of the body (\<open>Continue\<close>), or returns the path (\<open>Return\<close>). \<open>elapsed\<close> is
  the reading \<open>time.time() - start_time\<close> at the return.
\<close>

datatype 'o step = Continue "'o search_state" | Return "pos list" "'o search_state"

definition pop_phase :: "'o search_state \<Rightarrow> Node \<times> 'o search_state" where
  \<comment> \<open>lines 176-183: the statistics, then the pop\<close>
  "pop_phase s =
     (let s1 = s\<lparr>stats := map_option (stats_tick (length (open_set s))) (stats s)\<rparr>;
          popped = heappop (open_set s1)
      in (snd (snd (fst popped)), s1\<lparr>open_set := snd popped\<rparr>))"

definition visit_phase :: "'o observer option \<Rightarrow> Node \<Rightarrow> 'o search_state \<Rightarrow> 'o search_state" where
  \<comment> \<open>lines 189-198: mark as visited, count, call the observer\<close>
  "visit_phase cb current s2 =
     (let s3 = s2\<lparr>closed_set := insert (position current) (closed_set s2),
                 open_positions := open_positions s2 - {position current}\<rparr>;
          s4 = s3\<lparr>stats :=
                  map_option (\<lambda>st. st\<lparr>nodes_explored := nodes_explored st + 1\<rparr>) (stats s3)\<rparr>
      in case cb of
           None \<Rightarrow> s4
         | Some callback \<Rightarrow>
             s4\<lparr>observer_state :=
                  callback [PosSet (open_positions s4), PosSet (closed_set s4), PyNone,
                            NodeTable (node_map s4), Position (position current)]
                    (observer_state s4)\<rparr>)"

definition found_stats :: "pos list \<Rightarrow> Node \<Rightarrow> real \<Rightarrow> AlgorithmStats \<Rightarrow> AlgorithmStats" where
  \<comment> \<open>lines 204-206\<close>
  "found_stats path current elapsed st =
     st\<lparr>path_length := int (length path),
        path_cost := g_score current,
        execution_time := elapsed\<rparr>"

definition loop_body :: "pos \<Rightarrow> 'o observer option \<Rightarrow> real \<Rightarrow> 'o search_state \<Rightarrow> 'o step" where
  "loop_body end_pos cb elapsed s =
     (case pop_phase s of (current, s2) \<Rightarrow>
        if position current \<in> closed_set s2 then Continue s2
        else
          let s5 = visit_phase cb current s2 in
          if position current = end_pos then
            let path = reconstruct_path current
            in Return path (s5\<lparr>stats := map_option (found_stats path current elapsed) (stats s5)\<rparr>)
          else
            Continue (fold (relax end_pos current) (get_neighbors (grid s5) (position current)) s5))"

text \<open>
  How a call ends: at the first check (\<open>Rejected\<close>, with the objects it was given),
  with a path (\<open>Found\<close>) or with the frontier empty (\<open>Exhausted\<close>).
\<close>

datatype 'o outcome =
  Rejected Grid "AlgorithmStats option" 'o
  | Found "pos list" "'o search_state"
  | Exhausted "'o search_state"

text \<open>
  The while loop. A run that never leaves the loop has the value \<open>None\<close>.
\<close>

partial_function (option) search_loop ::
  "pos \<Rightarrow> 'o observer option \<Rightarrow> real \<Rightarrow> 'o search_state \<Rightarrow> 'o outcome option" where
  "search_loop end_pos cb elapsed s =
     (if open_set s = [] then
        Some (Exhausted
          (s\<lparr>stats := map_option (\<lambda>st. st\<lparr>execution_time := elapsed\<rparr>) (stats s)\<rparr>))
      else
        case loop_body end_pos cb elapsed s of
          Return path s' \<Rightarrow> Some (Found path s')
        | Continue s' \<Rightarrow> search_loop end_pos cb elapsed s')"

text \<open>Lines 152-173: the state before the loop.\<close>

definition initial_state ::
  "Grid \<Rightarrow> pos \<Rightarrow> pos \<Rightarrow> AlgorithmStats option \<Rightarrow> 'o \<Rightarrow> 'o search_state" where
  "initial_state g start_pos end_pos st ob =
     (let h_start = heuristic start_pos end_pos;
          start_node = Node h_start start_pos 0 h_start None
      in \<lparr>grid = g,
          open_set = heappush [] (f_score start_node, 0, start_node),
          counter = 1,
          g_scores = [start_pos \<mapsto> 0],
          closed_set = {},
          node_map = [start_pos \<mapsto> start_node],
          open_positions = {start_pos},
          stats = st,
          observer_state = ob\<rparr>)"

text \<open>
  \<open>find_path_run\<close> is the call with everything it leaves behind; \<open>ob\<close> is the
  state of the observer's world before the call.
\<close>

definition find_path_run ::
  "Grid \<Rightarrow> pos \<Rightarrow> pos \<Rightarrow> 'o observer option \<Rightarrow> 'o \<Rightarrow> AlgorithmStats option \<Rightarrow> real
     \<Rightarrow> 'o outcome option" where
  "find_path_run g start_pos end_pos cb ob st elapsed =
     (if \<not> is_walkable g start_pos \<or> \<not> is_walkable g end_pos then Some (Rejected g st ob)
      else search_loop end_pos cb elapsed (initial_state g start_pos end_pos st ob))"

text \<open>What a call returns, and the objects after it.\<close>

fun returned :: "'o outcome \<Rightarrow> pos list option" where
  "returned (Rejected g st ob) = None"
| "returned (Found path s) = Some path"
| "returned (Exhausted s) = None"


fun stats_after :: "'o outcome \<Rightarrow> AlgorithmStats option" where
  "stats_after (Rejected g st ob) = st"
| "stats_after (Found path s) = stats s"
| "stats_after (Exhausted s) = stats s"

fun observer_after :: "'o outcome \<Rightarrow> 'o" where
  "observer_after (Rejected g st ob) = ob"
| "observer_after (Found path s) = observer_state s"
| "observer_after (Exhausted s) = observer_state s"

definition find_path ::
  "Grid \<Rightarrow> pos \<Rightarrow> pos \<Rightarrow> 'o observer option \<Rightarrow> 'o \<Rightarrow> AlgorithmStats option \<Rightarrow> real
     \<Rightarrow> pos list option option" where
  "find_path g start_pos end_pos cb ob st elapsed =
     map_option returned (find_path_run g start_pos end_pos cb ob st elapsed)"

text \<open>
  The state at the head of the loop after \<open>n\<close> complete iterations, when the run
  gets that far.
\<close>

fun loop_state ::
  "pos \<Rightarrow> 'o observer option \<Rightarrow> real \<Rightarrow> nat \<Rightarrow> 'o search_state \<Rightarrow> 'o search_state option" where
  "loop_state end_pos cb elapsed 0 s = Some s"
| "loop_state end_pos cb elapsed (Suc n) s =
     (if open_set s = [] then None
      else case loop_body end_pos cb elapsed s of
             Return path s' \<Rightarrow> None
           | Continue s' \<Rightarrow> loop_state end_pos cb elapsed n s')"

section \<open>The neighbour rule as the specification words it\<close>

text \<open>
  The eight adjacent positions, the four cardinal ones first (up, down, left, right),
  then the four diagonal ones.
\<close>

definition adjacent_in_order :: "pos \<Rightarrow> pos list" where
  "adjacent_in_order p =
     (case p of (x, y) \<Rightarrow>
        [(x, y - 1), (x, y + 1), (x - 1, y), (x + 1, y),
         (x - 1, y - 1), (x - 1, y + 1), (x + 1, y - 1), (x + 1, y + 1)])"

text \<open>
  A step from \<open>p\<close> to the adjacent \<open>q\<close> is allowed when \<open>q\<close> is walkable and,
  for a diagonal step, one of the two orthogonal cells between them is walkable.
\<close>

definition step_allowed :: "Grid \<Rightarrow> pos \<Rightarrow> pos \<Rightarrow> bool" where
  "step_allowed g p q =
     (case p of (x, y) \<Rightarrow> case q of (nx, ny) \<Rightarrow>
        is_walkable g (nx, ny)
        \<and> (nx = x \<or> ny = y \<or> is_walkable g (nx, y) \<or> is_walkable g (x, ny)))"

section \<open>Paths, and what the proofs keep track of\<close>

text \<open>
  The cost of a sequence of positions: the sum of the movement costs of its
  consecutive pairs.
\<close>

fun total_cost :: "pos list \<Rightarrow> real" where
  "total_cost (p # q # ps) = get_movement_cost p q + total_cost (q # ps)"
| "total_cost ps = 0"

text \<open>
  A path from \<open>a\<close> to \<open>b\<close>: it starts at the walkable \<open>a\<close>, ends at \<open>b\<close>,
  and every step goes to an adjacent position by an allowed step.
\<close>

definition path_between :: "Grid \<Rightarrow> pos \<Rightarrow> pos \<Rightarrow> pos list \<Rightarrow> bool" where
  "path_between g a b ps \<longleftrightarrow>
     ps \<noteq> [] \<and> hd ps = a \<and> last ps = b \<and> is_walkable g a
     \<and> successively (\<lambda>p q. q \<in> set (adjacent_in_order p) \<and> step_allowed g p q) ps"

text \<open>
  A node whose chain of parents leads back to a start node at \<open>a\<close> along moves that
  \<open>get_neighbors\<close> offers, with the g-score adding up the movement costs.
\<close>

fun node_ok :: "Grid \<Rightarrow> pos \<Rightarrow> Node \<Rightarrow> bool" where
  "node_ok g a (Node f p gs h None) = (p = a \<and> gs = 0)"
| "node_ok g a (Node f p gs h (Some n)) =
     (p \<in> set (get_neighbors g (position n))
      \<and> gs = g_score n + get_movement_cost (position n) p \<and> node_ok g a n)"

text \<open>
  What holds of the frontier and the visited set at the head of every iteration.
\<close>

definition frontier_ok :: "Grid \<Rightarrow> pos \<Rightarrow> 'o search_state \<Rightarrow> bool" where
  "frontier_ok g a s \<longleftrightarrow>
     grid s = g \<and> closed_set s \<subseteq> {p. is_walkable g p}
     \<and> (\<forall>e \<in> set (open_set s). is_walkable g (position (snd (snd e))) \<and> node_ok g a (snd (snd e)))"

text \<open>
  The order in which the loop descends: the walkable cells not yet visited, then the
  size of the frontier.
\<close>

definition loop_measure :: "('o search_state \<times> 'o search_state) set" where
  "loop_measure =
     inv_image (less_than <*lex*> less_than)
       (\<lambda>s. (card ({p. is_walkable (grid s) p} - closed_set s), length (open_set s)))"

section \<open>Comparing two runs, counting, and the recording observer\<close>




text \<open>
  An observer that does nothing but keep the argument lists it is called with, in the
  order of the calls.
\<close>

definition record_call :: "(pyarg list) list observer" where
  "record_call args calls = calls @ [args]"

text \<open>
  A call for the expansion of \<open>p\<close>, as line 198 makes it: five arguments, the third
  one None, the second one the visited set \<open>cl\<close> of that moment, and \<open>p\<close> no longer
  among the open positions.
\<close>

definition call_for :: "pyarg list \<Rightarrow> pos set \<Rightarrow> pos \<Rightarrow> bool" where
  "call_for args cl p \<longleftrightarrow>
     (\<exists>op nm. args = [PosSet op, PosSet cl, PyNone, NodeTable nm, Position p] \<and> p \<notin> op)"

text \<open>
  The calls recorded so far are the calls for the visited positions in the order of their
  expansion: the \<open>k\<close>-th call is for the \<open>k\<close>-th position and carries the visited
  set of that moment, the first \<open>k\<close> positions.
\<close>

definition calls_match :: "(pyarg list) list search_state \<Rightarrow> bool" where
  "calls_match s \<longleftrightarrow>
     (\<exists>ps. distinct ps \<and> set ps = closed_set s \<and> length (observer_state s) = length ps
        \<and> (\<forall>k < length ps.
              call_for (observer_state s ! k) (set (take (Suc k) ps)) (ps ! k)))"

text \<open>The number of walkable cells of a grid, and the positions a call has visited.\<close>

definition num_walkable :: "Grid \<Rightarrow> nat" where
  "num_walkable g =
     length (filter (is_walkable g) (List.product [0..width g - 1] [0..height g - 1]))"

fun visited_after :: "'o outcome \<Rightarrow> pos set" where
  "visited_after (Rejected g st ob) = {}"
| "visited_after (Found path s) = closed_set s"
| "visited_after (Exhausted s) = closed_set s"

text \<open>
  The statistics at the head of an iteration, for a record that came in as \<open>st0\<close>:
  one explored node per visited position.
\<close>

definition explored_ok :: "Grid \<Rightarrow> AlgorithmStats \<Rightarrow> 'o search_state \<Rightarrow> bool" where
  "explored_ok g st0 s \<longleftrightarrow>
     (\<exists>r. stats s = Some r
        \<and> nodes_explored r = nodes_explored st0 + int (card (closed_set s))
        \<and> max_open_size st0 \<le> max_open_size r)"


section \<open>What the search keeps true\<close>

text \<open>
  Every entry of the frontier is a node with a proper chain of parents, its f-score is
  its g-score plus the heuristic, and the table of g-scores holds a value for its
  position that is no worse than its g-score.
\<close>

definition entries_ok :: "Grid \<Rightarrow> pos \<Rightarrow> pos \<Rightarrow> 'o search_state \<Rightarrow> bool" where
  "entries_ok g a b s \<longleftrightarrow>
     (\<forall>e \<in> set (open_set s).
        node_ok g a (snd (snd e))
        \<and> fst e = g_score (snd (snd e)) + heuristic (position (snd (snd e))) b
        \<and> (\<exists>gs. g_scores s (position (snd (snd e))) = Some gs \<and> gs \<le> g_score (snd (snd e))))"

text \<open>
  A position with a g-score in the table that is not yet visited has an entry with
  that g-score in the frontier.
\<close>

definition open_covers :: "'o search_state \<Rightarrow> bool" where
  "open_covers s \<longleftrightarrow>
     (\<forall>q gs. g_scores s q = Some gs \<and> q \<notin> closed_set s \<longrightarrow>
        (\<exists>e \<in> set (open_set s). position (snd (snd e)) = q \<and> g_score (snd (snd e)) = gs))"

text \<open>The g-score of a visited position is a lower bound of the cost of every path to it.\<close>

definition closed_optimal :: "Grid \<Rightarrow> pos \<Rightarrow> 'o search_state \<Rightarrow> bool" where
  "closed_optimal g a s \<longleftrightarrow>
     (\<forall>q \<in> closed_set s. \<exists>gs. g_scores s q = Some gs
        \<and> (\<forall>ps. path_between g a q ps \<longrightarrow> gs \<le> total_cost ps))"

text \<open>
  Every move out of a visited position has been taken into account in the table,
  except the moves from \<open>p\<close> to the positions of \<open>X\<close>: the neighbours of the
  position under expansion that the loop over the neighbours has not reached yet.
\<close>

definition edges_relaxed :: "Grid \<Rightarrow> pos \<Rightarrow> pos set \<Rightarrow> 'o search_state \<Rightarrow> bool" where
  "edges_relaxed g p X s \<longleftrightarrow>
     (\<forall>r \<in> closed_set s. \<forall>q \<in> set (get_neighbors g r).
        (r = p \<and> q \<in> X)
        \<or> (\<exists>gr gq. g_scores s r = Some gr \<and> g_scores s q = Some gq
              \<and> gq \<le> gr + get_movement_cost r q))"

definition astar_inv :: "Grid \<Rightarrow> pos \<Rightarrow> pos \<Rightarrow> pos \<Rightarrow> pos set \<Rightarrow> 'o search_state \<Rightarrow> bool" where
  "astar_inv g a b p X s \<longleftrightarrow>
     g_scores s a = Some 0 \<and> entries_ok g a b s \<and> open_covers s \<and> closed_optimal g a s
     \<and> edges_relaxed g p X s \<and> b \<notin> closed_set s"

section \<open>Small grids for the concrete runs\<close>

definition grid_1x1 :: Grid where
  "grid_1x1 = Grid_init 1 1"

definition grid_wall :: Grid where
  "grid_wall = set_cell (Grid_init 3 1) (1, 0) OBSTACLE"

definition grid_corner :: Grid where
  "grid_corner = set_cell (set_cell (Grid_init 2 2) (1, 0) OBSTACLE) (0, 1) OBSTACLE"

definition grid_2x1 :: Grid where
  "grid_2x1 = Grid_init 2 1"


definition grid_pocket :: Grid where
  "grid_pocket =
     set_cell (set_cell (set_cell (Grid_init 3 3) (1, 0) OBSTACLE) (0, 1) OBSTACLE) (2, 1) OBSTACLE"

section \<open>Grid: basic facts\<close>

lemma wf_grid_Grid_init: "wf_grid (Grid_init w h)"
  by (simp add: wf_grid_def Grid_init_def list_all_iff)

lemma wf_grid_set_cell: "wf_grid g \<Longrightarrow> wf_grid (set_cell g p c)"
proof (cases p)
  case (Pair x y)
  assume wf: "wf_grid g"
  show ?thesis
  proof (cases "is_valid g p")
    case True
    with wf Pair have "nat y < length (cells g)"
      by (auto simp: is_valid_def wf_grid_def)
    then have "cells g ! nat y \<in> set (cells g)"
      by simp
    with wf Pair True show ?thesis
      by (auto simp: wf_grid_def set_cell_def list_all_iff
          dest!: set_update_subset_insert [THEN subsetD])
  next
    case False
    with wf show ?thesis
      by (simp add: set_cell_def)
  qed
qed

lemma get_neighbors_filter:
  "get_neighbors g p = filter (step_allowed g p) (adjacent_in_order p)"
  by (cases p)
     (simp add: get_neighbors_def directions_def neighbor_step_def adjacent_in_order_def
        step_allowed_def Let_def)

section \<open>The while loop: its iterations and its exits\<close>

lemma search_loop_loop_state:
  "loop_state e cb el n s = Some t \<Longrightarrow> search_loop e cb el s = search_loop e cb el t"
proof (induction n arbitrary: s)
  case 0
  then show ?case by simp
next
  case (Suc n)
  from Suc.prems obtain s' where ne: "open_set s \<noteq> []"
    and body: "loop_body e cb el s = Continue s'" and rest: "loop_state e cb el n s' = Some t"
    by (auto split: if_splits step.splits)
  have "search_loop e cb el s = search_loop e cb el s'"
    using ne body by (subst search_loop.simps) simp
  with Suc.IH [OF rest] show ?case by simp
qed

lemma loop_state_invariant:
  assumes "P s"
    and "\<And>u u'. P u \<Longrightarrow> open_set u \<noteq> [] \<Longrightarrow> loop_body e cb el u = Continue u' \<Longrightarrow> P u'"
    and "loop_state e cb el n s = Some t"
  shows "P t"
  using assms(1,3)
proof (induction n arbitrary: s)
  case 0
  then show ?case by simp
next
  case (Suc n)
  from Suc.prems(2) obtain s' where ne: "open_set s \<noteq> []"
    and body: "loop_body e cb el s = Continue s'" and rest: "loop_state e cb el n s' = Some t"
    by (auto split: if_splits step.splits)
  from assms(2) [OF Suc.prems(1) ne body] have "P s'" .
  from Suc.IH [OF this rest] show ?case .
qed

lemma loop_state_Suc_end:
  "loop_state e cb el n s = Some t \<Longrightarrow> open_set t \<noteq> [] \<Longrightarrow> loop_body e cb el t = Continue t'
   \<Longrightarrow> loop_state e cb el (Suc n) s = Some t'"
proof (induction n arbitrary: s)
  case 0
  then show ?case by simp
next
  case (Suc n)
  from Suc.prems(1) obtain s' where ne: "open_set s \<noteq> []"
    and body: "loop_body e cb el s = Continue s'" and rest: "loop_state e cb el n s' = Some t"
    by (auto split: if_splits step.splits)
  from Suc.IH [OF rest Suc.prems(2,3)] have "loop_state e cb el (Suc n) s' = Some t'" .
  with ne body show ?case by simp
qed

lemma loop_reaches_exit:
  assumes wf: "wf R" and P: "P s"
    and pres: "\<And>u u'. P u \<Longrightarrow> open_set u \<noteq> [] \<Longrightarrow> loop_body e cb el u = Continue u' \<Longrightarrow> P u'"
    and dec: "\<And>u u'. P u \<Longrightarrow> open_set u \<noteq> [] \<Longrightarrow> loop_body e cb el u = Continue u' \<Longrightarrow> (u', u) \<in> R"
  shows "\<exists>n t. loop_state e cb el n s = Some t \<and> P t
           \<and> (open_set t = [] \<or> (\<exists>path t'. loop_body e cb el t = Return path t'))"
  using wf P
proof (induction s rule: wf_induct_rule)
  case (less s)
  show ?case
  proof (cases "open_set s = []")
    case True
    have "loop_state e cb el 0 s = Some s" by simp
    with True less.prems show ?thesis by blast
  next
    case False
    show ?thesis
    proof (cases "loop_body e cb el s")
      case (Return path t')
      have "loop_state e cb el 0 s = Some s" by simp
      with Return less.prems show ?thesis by blast
    next
      case (Continue s')
      from pres [OF less.prems False Continue] have P': "P s'" .
      from dec [OF less.prems False Continue] have "(s', s) \<in> R" .
      from less.IH [OF this P'] obtain n t where st: "loop_state e cb el n s' = Some t" and Pt: "P t"
        and ex: "open_set t = [] \<or> (\<exists>path t'. loop_body e cb el t = Return path t')"
        by blast
      from st False Continue have "loop_state e cb el (Suc n) s = Some t" by simp
      with Pt ex show ?thesis by blast
    qed
  qed
qed

lemma search_loop_exit:
  "open_set t = [] \<Longrightarrow>
     search_loop e cb el t =
       Some (Exhausted (t\<lparr>stats := map_option (\<lambda>st. st\<lparr>execution_time := el\<rparr>) (stats t)\<rparr>))"
  "open_set t \<noteq> [] \<Longrightarrow> loop_body e cb el t = Return path t' \<Longrightarrow>
     search_loop e cb el t = Some (Found path t')"
  by (subst search_loop.simps, simp)+

section \<open>The heap, the phases of an iteration, and the frontier\<close>

lemma least_entry_mem: "least_entry m es \<in> set (m # es)"
  by (induction es arbitrary: m) auto

lemma heappop_fst_mem: "h \<noteq> [] \<Longrightarrow> fst (heappop h) \<in> set h"
  using least_entry_mem [of "hd h" "tl h"] by (cases h) (auto simp: heappop_def Let_def)

lemma heappop_snd_subset: "set (snd (heappop h)) \<subseteq> set h"
  using set_remove1_subset [of "least_entry (hd h) (tl h)" h] by (simp add: heappop_def Let_def)

lemma heappop_length: "h \<noteq> [] \<Longrightarrow> Suc (length (snd (heappop h))) = length h"
proof -
  assume ne: "h \<noteq> []"
  let ?m = "least_entry (hd h) (tl h)"
  from heappop_fst_mem [OF ne] have "?m \<in> set h"
    by (simp add: heappop_def Let_def)
  then have "length (remove1 ?m h) = length h - 1"
    by (simp add: length_remove1)
  with ne show ?thesis
    by (cases h) (simp_all add: heappop_def Let_def)
qed

lemma finite_walkable: "finite {p. is_walkable g p}"
proof (rule finite_subset)
  show "{p. is_walkable g p} \<subseteq> {0..<width g} \<times> {0..<height g}"
    by (auto simp: is_walkable_def is_valid_def split: if_splits)
  show "finite ({0..<width g} \<times> {0..<height g})"
    by simp
qed

lemma get_neighbors_walkable: "q \<in> set (get_neighbors g p) \<Longrightarrow> is_walkable g q"
  by (cases q) (auto simp: get_neighbors_filter step_allowed_def split: prod.splits)

lemma pop_phase_fields [simp]:
  "grid (snd (pop_phase s)) = grid s"
  "closed_set (snd (pop_phase s)) = closed_set s"
  "open_set (snd (pop_phase s)) = snd (heappop (open_set s))"
  "counter (snd (pop_phase s)) = counter s"
  "g_scores (snd (pop_phase s)) = g_scores s"
  "node_map (snd (pop_phase s)) = node_map s"
  "open_positions (snd (pop_phase s)) = open_positions s"
  "observer_state (snd (pop_phase s)) = observer_state s"
  "stats (snd (pop_phase s)) = map_option (stats_tick (length (open_set s))) (stats s)"
  "fst (pop_phase s) = snd (snd (fst (heappop (open_set s))))"
  by (simp_all add: pop_phase_def Let_def)

lemma visit_phase_fields [simp]:
  "grid (visit_phase cb cur s) = grid s"
  "closed_set (visit_phase cb cur s) = insert (position cur) (closed_set s)"
  "open_set (visit_phase cb cur s) = open_set s"
  "counter (visit_phase cb cur s) = counter s"
  "g_scores (visit_phase cb cur s) = g_scores s"
  "node_map (visit_phase cb cur s) = node_map s"
  "open_positions (visit_phase cb cur s) = open_positions s - {position cur}"
  "stats (visit_phase cb cur s) =
     map_option (\<lambda>st. st\<lparr>nodes_explored := nodes_explored st + 1\<rparr>) (stats s)"
  by (simp_all add: visit_phase_def Let_def split: option.splits)

lemma relax_fields [simp]:
  "grid (relax e cur q s) = grid s"
  "closed_set (relax e cur q s) = closed_set s"
  "stats (relax e cur q s) = stats s"
  "observer_state (relax e cur q s) = observer_state s"
  by (simp_all add: relax_def Let_def)

lemma fold_relax_fields [simp]:
  "grid (fold (relax e cur) qs s) = grid s"
  "closed_set (fold (relax e cur) qs s) = closed_set s"
  "stats (fold (relax e cur) qs s) = stats s"
  "observer_state (fold (relax e cur) qs s) = observer_state s"
  by (induction qs arbitrary: s) simp_all

lemma fold_relax_invariant:
  assumes "P s" and "\<And>q u. q \<in> set qs \<Longrightarrow> P u \<Longrightarrow> P (relax e cur q u)"
  shows "P (fold (relax e cur) qs s)"
  using assms by (induction qs arbitrary: s) simp_all

text \<open>The two ways an iteration goes on, and the one way it returns.\<close>

lemma loop_body_Continue:
  assumes "loop_body e cb el s = Continue s'"
  obtains (stale) "position (fst (pop_phase s)) \<in> closed_set s" "s' = snd (pop_phase s)"
  | (expand) "position (fst (pop_phase s)) \<notin> closed_set s" "position (fst (pop_phase s)) \<noteq> e"
      "s' = fold (relax e (fst (pop_phase s)))
              (get_neighbors (grid s) (position (fst (pop_phase s))))
              (visit_phase cb (fst (pop_phase s)) (snd (pop_phase s)))"
  using assms
  by (auto simp: loop_body_def Let_def case_prod_beta split: if_splits)

lemma loop_body_Return:
  assumes "loop_body e cb el s = Return path s'"
  shows "position (fst (pop_phase s)) \<notin> closed_set s"
    and "position (fst (pop_phase s)) = e"
    and "path = reconstruct_path (fst (pop_phase s))"
    and "s' = (visit_phase cb (fst (pop_phase s)) (snd (pop_phase s)))
         \<lparr>stats := map_option (found_stats path (fst (pop_phase s)) el)
            (stats (visit_phase cb (fst (pop_phase s)) (snd (pop_phase s))))\<rparr>"
  using assms
  by (auto simp: loop_body_def Let_def case_prod_beta split: if_splits)

lemma relax_frontier_ok:
  assumes "frontier_ok g a s" "q \<in> set (get_neighbors g (position cur))" "node_ok g a cur"
  shows "frontier_ok g a (relax e cur q s)"
  using assms get_neighbors_walkable [OF assms(2)]
  by (auto simp: frontier_ok_def relax_def Let_def heappush_def)

lemma loop_body_frontier_ok:
  assumes ok: "frontier_ok g a s" and ne: "open_set s \<noteq> []"
    and body: "loop_body e cb el s = Continue s'"
  shows "frontier_ok g a s'"
proof -
  let ?cur = "fst (pop_phase s)"
  from heappop_fst_mem [OF ne] ok
  have cur: "is_walkable g (position ?cur)" "node_ok g a ?cur"
    by (auto simp: frontier_ok_def)
  have popped: "frontier_ok g a (snd (pop_phase s))"
    using ok heappop_snd_subset [of "open_set s"] by (auto simp: frontier_ok_def)
  from body show ?thesis
  proof (cases rule: loop_body_Continue)
    case stale
    with popped show ?thesis by simp
  next
    case expand
    have "frontier_ok g a (visit_phase cb ?cur (snd (pop_phase s)))"
      using popped cur by (auto simp: frontier_ok_def)
    then have "frontier_ok g a
       (fold (relax e ?cur) (get_neighbors g (position ?cur)) (visit_phase cb ?cur (snd (pop_phase s))))"
      by (rule fold_relax_invariant) (rule relax_frontier_ok [OF _ _ cur(2)])
    moreover have "grid s = g" using ok by (simp add: frontier_ok_def)
    ultimately show ?thesis using expand by simp
  qed
qed

lemma wf_loop_measure: "wf loop_measure"
  unfolding loop_measure_def by (intro wf_inv_image wf_lex_prod wf_less_than)

lemma fold_relax_open_set_length:
  "length (open_set s) \<le> length (open_set (fold (relax e cur) qs s))"
proof (induction qs arbitrary: s)
  case Nil
  then show ?case by simp
next
  case (Cons q qs)
  have "length (open_set s) \<le> length (open_set (relax e cur q s))"
    by (simp add: relax_def Let_def heappush_def)
  with Cons [of "relax e cur q s"] show ?case by simp
qed

lemma loop_body_decreases:
  assumes ok: "frontier_ok g a s" and ne: "open_set s \<noteq> []"
    and body: "loop_body e cb el s = Continue s'"
  shows "(s', s) \<in> loop_measure"
proof -
  let ?cur = "fst (pop_phase s)"
  let ?W = "{p. is_walkable (grid s) p}"
  from heappop_fst_mem [OF ne] ok
  have cur: "position ?cur \<in> ?W"
    by (auto simp: frontier_ok_def)
  from body show ?thesis
  proof (cases rule: loop_body_Continue)
    case stale
    with heappop_length [OF ne] show ?thesis
      by (simp add: loop_measure_def)
  next
    case expand
    have "?W - insert (position ?cur) (closed_set s) \<subset> ?W - closed_set s"
      using cur expand(1) by auto
    then have "card (?W - insert (position ?cur) (closed_set s)) < card (?W - closed_set s)"
      by (intro psubset_card_mono) (simp_all add: finite_walkable)
    with expand show ?thesis
      by (simp add: loop_measure_def)
  qed
qed

lemma initial_frontier_ok:
  "is_walkable g a \<Longrightarrow> frontier_ok g a (initial_state g a e st ob)"
  by (simp add: frontier_ok_def initial_state_def Let_def heappush_def)

section \<open>Every call returns\<close>

lemma find_path_run_cases:
  fixes g :: Grid and cb :: "'o observer option"
  obtains (rejected) "\<not> is_walkable g a \<or> \<not> is_walkable g b"
      "find_path_run g a b cb ob st el = Some (Rejected g st ob)"
  | (found) n t path t' where "is_walkable g a" "is_walkable g b"
      "loop_state b cb el n (initial_state g a b st ob) = Some t"
      "open_set t \<noteq> []" "loop_body b cb el t = Return path t'"
      "find_path_run g a b cb ob st el = Some (Found path t')"
  | (exhausted) n t where "is_walkable g a" "is_walkable g b"
      "loop_state b cb el n (initial_state g a b st ob) = Some t"
      "open_set t = []"
      "find_path_run g a b cb ob st el =
         Some (Exhausted (t\<lparr>stats := map_option (\<lambda>st. st\<lparr>execution_time := el\<rparr>) (stats t)\<rparr>))"
proof (cases "\<not> is_walkable g a \<or> \<not> is_walkable g b")
  case True
  then have "find_path_run g a b cb ob st el = Some (Rejected g st ob)"
    by (simp add: find_path_run_def)
  with True show ?thesis by (rule rejected)
next
  case False
  then have wa: "is_walkable g a" and wb: "is_walkable g b" by simp_all
  let ?s0 = "initial_state g a b st ob :: 'o search_state"
  have run: "find_path_run g a b cb ob st el = search_loop b cb el ?s0"
    using False by (simp add: find_path_run_def)
  have "\<exists>n t. loop_state b cb el n ?s0 = Some t \<and> frontier_ok g a t
           \<and> (open_set t = [] \<or> (\<exists>path t'. loop_body b cb el t = Return path t'))"
  proof (rule loop_reaches_exit [where P = "frontier_ok g a" and R = loop_measure])
    show "wf (loop_measure :: ('o search_state \<times> 'o search_state) set)"
      by (rule wf_loop_measure)
    show "frontier_ok g a ?s0"
      by (rule initial_frontier_ok [OF wa])
  qed (erule (2) loop_body_frontier_ok, erule (2) loop_body_decreases)
  then obtain n t where st: "loop_state b cb el n ?s0 = Some t"
    and ex: "open_set t = [] \<or> (\<exists>path t'. loop_body b cb el t = Return path t')"
    by blast
  have eq: "search_loop b cb el ?s0 = search_loop b cb el t"
    by (rule search_loop_loop_state [OF st])
  show ?thesis
  proof (cases "open_set t = []")
    case True
    with run eq search_loop_exit(1) [OF True, of b cb el]
    show ?thesis using wa wb st by (intro exhausted [of n t]) simp_all
  next
    case ne: False
    with ex obtain path t' where body: "loop_body b cb el t = Return path t'" by blast
    from run eq search_loop_exit(2) [OF ne body]
    show ?thesis using wa wb st ne body by (intro found [of n t path t']) simp_all
  qed
qed

lemma find_path_run_terminates: "\<exists>out. find_path_run g a b cb ob st el = Some out"
  by (cases rule: find_path_run_cases [of g a b cb ob st el]) blast+


lemma initial_state_fields [simp]:
  "grid (initial_state g a e st ob) = g"
  "closed_set (initial_state g a e st ob) = {}"
  "counter (initial_state g a e st ob) = 1"
  "g_scores (initial_state g a e st ob) = [a \<mapsto> 0]"
  "open_positions (initial_state g a e st ob) = {a}"
  "stats (initial_state g a e st ob) = st"
  "observer_state (initial_state g a e st ob) = ob"
  "open_set (initial_state g a e st ob) =
     [(heuristic a e, 0, Node (heuristic a e) a 0 (heuristic a e) None)]"
  "node_map (initial_state g a e st ob) = [a \<mapsto> Node (heuristic a e) a 0 (heuristic a e) None]"
  by (simp_all add: initial_state_def Let_def heappush_def)

section \<open>Two runs on the same input\<close>












section \<open>The statistics and the calls of the observer\<close>

lemma card_walkable: "card {p. is_walkable g p} = num_walkable g"
proof -
  let ?all = "List.product [0..width g - 1] [0..height g - 1]"
  have "distinct (filter (is_walkable g) ?all)"
    by (simp add: distinct_product)
  moreover have "set (filter (is_walkable g) ?all) = {p. is_walkable g p}"
    by (auto simp: is_walkable_def is_valid_def split: if_splits)
  ultimately show ?thesis
    unfolding num_walkable_def by (metis distinct_card)
qed

lemma run_invariant:
  assumes start: "is_walkable g a"
    and st: "loop_state b cb el n (initial_state g a b st ob) = Some t"
    and init: "P (initial_state g a b st ob)"
    and pres: "\<And>u u'. frontier_ok g a u \<Longrightarrow> P u \<Longrightarrow> open_set u \<noteq> []
         \<Longrightarrow> loop_body b cb el u = Continue u' \<Longrightarrow> P u'"
  shows "frontier_ok g a t \<and> P t"
proof (rule loop_state_invariant [where P = "\<lambda>u. frontier_ok g a u \<and> P u", OF _ _ st])
  show "frontier_ok g a (initial_state g a b st ob) \<and> P (initial_state g a b st ob)"
    using initial_frontier_ok [OF start] init by simp
next
  fix u u' :: "'a search_state"
  assume "frontier_ok g a u \<and> P u" "open_set u \<noteq> []" "loop_body b cb el u = Continue u'"
  then show "frontier_ok g a u' \<and> P u'"
    using loop_body_frontier_ok pres by blast
qed

lemma frontier_ok_closed:
  assumes "frontier_ok g a s"
  shows "finite (closed_set s)" "card (closed_set s) \<le> num_walkable g"
proof -
  from assms have sub: "closed_set s \<subseteq> {p. is_walkable g p}"
    by (simp add: frontier_ok_def)
  then show "finite (closed_set s)"
    by (rule finite_subset) (rule finite_walkable)
  from sub show "card (closed_set s) \<le> num_walkable g"
    unfolding card_walkable [symmetric] by (intro card_mono finite_walkable)
qed

lemma loop_body_Continue_explored:
  assumes fr: "frontier_ok g a u" and ex: "explored_ok g st0 u"
    and body: "loop_body b cb el u = Continue u'"
  shows "explored_ok g st0 u'"
    and "\<exists>r r'. stats u = Some r \<and> stats u' = Some r' \<and> max_open_size r \<le> max_open_size r'"
proof -
  from ex obtain r where r: "stats u = Some r"
    "nodes_explored r = nodes_explored st0 + int (card (closed_set u))"
    "max_open_size st0 \<le> max_open_size r"
    by (auto simp: explored_ok_def)
  note fin = frontier_ok_closed(1) [OF fr]
  from body have "explored_ok g st0 u' \<and> (\<exists>r'. stats u' = Some r' \<and> max_open_size r \<le> max_open_size r')"
  proof (cases rule: loop_body_Continue)
    case stale
    with r show ?thesis
      by (simp add: explored_ok_def stats_tick_def)
  next
    case expand
    with r fin show ?thesis
      by (simp add: explored_ok_def stats_tick_def)
  qed
  with r show "explored_ok g st0 u'"
    and "\<exists>r r'. stats u = Some r \<and> stats u' = Some r' \<and> max_open_size r \<le> max_open_size r'"
    by auto
qed

lemma loop_body_Return_explored:
  assumes fr: "frontier_ok g a u" and ex: "explored_ok g st0 u"
    and body: "loop_body b cb el u = Return path u'"
  shows "explored_ok g st0 u'"
    and "\<exists>r r'. stats u = Some r \<and> stats u' = Some r' \<and> max_open_size r \<le> max_open_size r'"
proof -
  from ex obtain r where r: "stats u = Some r"
    "nodes_explored r = nodes_explored st0 + int (card (closed_set u))"
    "max_open_size st0 \<le> max_open_size r"
    by (auto simp: explored_ok_def)
  note fin = frontier_ok_closed(1) [OF fr]
  from loop_body_Return(1,4) [OF body] r fin
  have "explored_ok g st0 u' \<and> (\<exists>r'. stats u' = Some r' \<and> max_open_size r \<le> max_open_size r')"
    by (auto simp: explored_ok_def stats_tick_def found_stats_def)
  with r show "explored_ok g st0 u'"
    and "\<exists>r r'. stats u = Some r \<and> stats u' = Some r' \<and> max_open_size r \<le> max_open_size r'"
    by auto
qed

lemma loop_body_Return_frontier:
  assumes fr: "frontier_ok g a u" and ne: "open_set u \<noteq> []"
    and body: "loop_body b cb el u = Return path u'"
  shows "closed_set u' \<subseteq> {p. is_walkable g p}"
proof -
  from heappop_fst_mem [OF ne] fr
  have "is_walkable g (position (fst (pop_phase u)))"
    by (auto simp: frontier_ok_def)
  with loop_body_Return(4) [OF body] fr show ?thesis
    by (auto simp: frontier_ok_def)
qed

lemma run_explored:
  assumes "is_walkable g a"
    and "loop_state b cb el n (initial_state g a b (Some st0) ob) = Some t"
  shows "frontier_ok g a t \<and> explored_ok g st0 t"
  using assms
proof (rule run_invariant)
  show "explored_ok g st0 (initial_state g a b (Some st0) ob)"
    by (simp add: explored_ok_def)
qed (rule loop_body_Continue_explored(1))

lemma explored_ok_timed:
  "explored_ok g st0 u \<Longrightarrow>
   explored_ok g st0 (u\<lparr>stats := map_option (\<lambda>st. st\<lparr>execution_time := el\<rparr>) (stats u)\<rparr>)"
  by (auto simp: explored_ok_def)

lemma visit_phase_observer [simp]:
  "observer_state (visit_phase cb cur s) =
     (case cb of
        None \<Rightarrow> observer_state s
      | Some callback \<Rightarrow>
          callback [PosSet (open_positions s - {position cur}),
                    PosSet (insert (position cur) (closed_set s)), PyNone,
                    NodeTable (node_map s), Position (position cur)] (observer_state s))"
  by (simp add: visit_phase_def Let_def split: option.splits)

lemma loop_body_stale:
  "position (fst (pop_phase t)) \<in> closed_set t \<Longrightarrow>
     loop_body e cb el t = Continue (snd (pop_phase t))"
  by (simp add: loop_body_def case_prod_beta)

lemma visit_phase_calls_match:
  assumes "calls_match s" "position cur \<notin> closed_set s"
  shows "calls_match (visit_phase (Some record_call) cur s)"
proof -
  from assms(1) obtain ps where ps: "distinct ps" "set ps = closed_set s"
    "length (observer_state s) = length ps"
    "\<And>k. k < length ps \<Longrightarrow>
       call_for (observer_state s ! k) (set (take (Suc k) ps)) (ps ! k)"
    unfolding calls_match_def by blast
  let ?p = "position cur"
  let ?args = "[PosSet (open_positions s - {?p}), PosSet (insert ?p (closed_set s)), PyNone,
                NodeTable (node_map s), Position ?p]"
  let ?s = "visit_phase (Some record_call) cur s"
  have log: "observer_state ?s = observer_state s @ [?args]"
    by (simp add: record_call_def)
  have "call_for (observer_state ?s ! k) (set (take (Suc k) (ps @ [?p]))) ((ps @ [?p]) ! k)"
    if "k < length (ps @ [?p])" for k
  proof (cases "k < length ps")
    case True
    with ps(3) ps(4) [of k] show ?thesis
      by (simp add: record_call_def nth_append)
  next
    case False
    with that have k: "k = length ps" by simp
    have "call_for ?args (insert ?p (closed_set s)) ?p"
      by (simp add: call_for_def)
    with k ps(2,3) show ?thesis
      by (simp add: record_call_def nth_append)
  qed
  moreover have "distinct (ps @ [?p])" "set (ps @ [?p]) = closed_set ?s"
    "length (observer_state ?s) = length (ps @ [?p])"
    using ps(1,2,3) assms(2) by (auto simp: record_call_def)
  ultimately show ?thesis
    unfolding calls_match_def by blast
qed

lemma calls_match_cong:
  "calls_match s \<Longrightarrow> closed_set s' = closed_set s \<Longrightarrow> observer_state s' = observer_state s
     \<Longrightarrow> calls_match s'"
  by (simp add: calls_match_def)

lemma loop_body_Continue_calls_match:
  assumes ok: "calls_match u" and body: "loop_body b (Some record_call) el u = Continue u'"
  shows "calls_match u'"
  using body
proof (cases rule: loop_body_Continue)
  case stale
  with ok show ?thesis
    by (auto elim: calls_match_cong)
next
  case expand
  let ?cur = "fst (pop_phase u)"
  have "calls_match (snd (pop_phase u))"
    using ok by (rule calls_match_cong) simp_all
  then have "calls_match (visit_phase (Some record_call) ?cur (snd (pop_phase u)))"
    using expand(1) by (intro visit_phase_calls_match) simp_all
  then show ?thesis
    unfolding expand(3) by (rule calls_match_cong) simp_all
qed

lemma loop_body_Return_calls_match:
  assumes ok: "calls_match u" and body: "loop_body b (Some record_call) el u = Return path u'"
  shows "calls_match u'"
proof -
  let ?cur = "fst (pop_phase u)"
  note ret = loop_body_Return [OF body]
  have "calls_match (snd (pop_phase u))"
    using ok by (rule calls_match_cong) simp_all
  moreover from ret(1) have "position ?cur \<notin> closed_set (snd (pop_phase u))"
    by simp
  ultimately have "calls_match (visit_phase (Some record_call) ?cur (snd (pop_phase u)))"
    by (rule visit_phase_calls_match)
  then show ?thesis
    by (rule calls_match_cong) (simp_all add: ret(4))
qed

lemma calls_match_length:
  assumes "calls_match s"
  shows "length (observer_state s) = card (closed_set s)"
proof -
  from assms obtain ps where ps: "distinct ps" "set ps = closed_set s"
    "length (observer_state s) = length ps"
    unfolding calls_match_def by blast
  from ps(1) have "length ps = card (set ps)"
    by (simp add: distinct_card)
  with ps(2,3) show ?thesis by simp
qed

lemma outcome_calls_match:
  assumes ok: "calls_match u"
    and ex: "\<And>st0. st = Some st0 \<Longrightarrow> explored_ok g st0 u"
    and out: "out = Found path u \<or> out = Exhausted u"
  shows "\<exists>ps. distinct ps \<and> set ps = visited_after out
     \<and> length (observer_after out) = length ps
     \<and> (\<forall>k < length ps. call_for (observer_after out ! k) (set (take (Suc k) ps)) (ps ! k))
     \<and> length (observer_after out) = card (visited_after out)
     \<and> (\<forall>st0. st = Some st0 \<longrightarrow>
          (\<exists>r. stats_after out = Some r
             \<and> nodes_explored r = nodes_explored st0 + int (length (observer_after out))))"
proof -
  from ok obtain ps where ps: "distinct ps" "set ps = closed_set u"
    "length (observer_state u) = length ps"
    "\<forall>k < length ps. call_for (observer_state u ! k) (set (take (Suc k) ps)) (ps ! k)"
    unfolding calls_match_def by blast
  note len = calls_match_length [OF ok]
  have "\<exists>r. stats u = Some r
          \<and> nodes_explored r = nodes_explored st0 + int (length (observer_state u))"
    if "st = Some st0" for st0
    using ex [OF that] len by (auto simp: explored_ok_def)
  then have "\<forall>st0. st = Some st0 \<longrightarrow>
      (\<exists>r. stats u = Some r
          \<and> nodes_explored r = nodes_explored st0 + int (length (observer_state u)))"
    by blast
  with ps len out show ?thesis
    by (intro exI [of _ ps]) auto
qed

lemma loop_body_call:
  assumes ne: "open_set t \<noteq> []"
  shows "\<exists>u. (loop_body b (Some record_call) el t = Continue u
             \<or> (\<exists>path. loop_body b (Some record_call) el t = Return path u))
     \<and> observer_state u =
         (if position (fst (pop_phase t)) \<in> closed_set t then observer_state t
          else observer_state t @
               [[PosSet (open_positions t - {position (fst (pop_phase t))}),
                 PosSet (insert (position (fst (pop_phase t))) (closed_set t)), PyNone,
                 NodeTable (node_map t), Position (position (fst (pop_phase t)))]])"
proof (cases "loop_body b (Some record_call) el t")
  case (Continue u)
  then have "observer_state u =
         (if position (fst (pop_phase t)) \<in> closed_set t then observer_state t
          else observer_state t @
               [[PosSet (open_positions t - {position (fst (pop_phase t))}),
                 PosSet (insert (position (fst (pop_phase t))) (closed_set t)), PyNone,
                 NodeTable (node_map t), Position (position (fst (pop_phase t)))]])"
    by (cases rule: loop_body_Continue) (simp_all add: record_call_def)
  with Continue show ?thesis by blast
next
  case (Return path u)
  from loop_body_Return(1,4) [OF Return]
  have "observer_state u =
         (if position (fst (pop_phase t)) \<in> closed_set t then observer_state t
          else observer_state t @
               [[PosSet (open_positions t - {position (fst (pop_phase t))}),
                 PosSet (insert (position (fst (pop_phase t))) (closed_set t)), PyNone,
                 NodeTable (node_map t), Position (position (fst (pop_phase t)))]])"
    by (simp add: record_call_def)
  with Return show ?thesis by blast
qed

section \<open>The order of the frontier\<close>

lemma entry_less_trans: "entry_less x y \<Longrightarrow> entry_less y z \<Longrightarrow> entry_less x z"
  by (cases x; cases y; cases z) (auto simp: entry_less_def split: if_splits)

lemma entry_less_neg_trans: "\<not> entry_less x y \<Longrightarrow> \<not> entry_less y z \<Longrightarrow> \<not> entry_less x z"
  by (cases x; cases y; cases z) (auto simp: entry_less_def split: if_splits)

lemma entry_less_irrefl: "\<not> entry_less x x"
  by (cases x) (simp add: entry_less_def)


lemma least_entry_least: "y \<in> set (m # es) \<Longrightarrow> \<not> entry_less y (least_entry m es)"
proof (induction es arbitrary: m y)
  case Nil
  then show ?case by (simp add: entry_less_irrefl)
next
  case (Cons e es)
  let ?m = "if entry_less e m then e else m"
  have rest: "\<not> entry_less z (least_entry ?m es)" if "z \<in> set (?m # es)" for z
    using Cons.IH [OF that] .
  have m': "\<not> entry_less ?m (least_entry ?m es)"
    by (rule rest) simp
  have "\<not> entry_less m (least_entry ?m es)"
  proof (cases "entry_less e m")
    case True
    with m' show ?thesis by (auto dest: entry_less_trans)
  next
    case False
    with m' show ?thesis by simp
  qed
  moreover have "\<not> entry_less e (least_entry ?m es)"
  proof (cases "entry_less e m")
    case True
    with m' show ?thesis by simp
  next
    case False
    with m' show ?thesis by (auto dest: entry_less_neg_trans)
  qed
  moreover have "\<not> entry_less y (least_entry ?m es)" if "y \<in> set es"
    by (rule rest) (simp add: that)
  moreover from Cons.prems have "y = m \<or> y = e \<or> y \<in> set es"
    by auto
  ultimately show ?case
    by (simp only: least_entry.simps) blast
qed

lemma heappop_least: "y \<in> set h \<Longrightarrow> \<not> entry_less y (fst (heappop h))"
  using least_entry_least [of y "hd h" "tl h"] by (cases h) (simp_all add: heappop_def Let_def)

lemma not_entry_less_le:
  assumes "\<not> entry_less y x"
  shows "fst x \<le> fst y" and "fst x = fst y \<Longrightarrow> fst (snd x) \<le> fst (snd y)"
  using assms by (cases x; cases y; auto simp: entry_less_def split: if_splits)+





section \<open>Paths and the chains of parents\<close>

lemma total_cost_snoc:
  "xs \<noteq> [] \<Longrightarrow> total_cost (xs @ [q]) = total_cost xs + get_movement_cost (last xs) q"
  by (induction xs rule: total_cost.induct) simp_all

lemma get_movement_cost_pos: "0 < get_movement_cost p q"
  by (cases p; cases q) (simp add: get_movement_cost_def)

lemma total_cost_nonneg: "0 \<le> total_cost ps"
  by (induction ps rule: total_cost.induct)
     (simp_all add: less_imp_le [OF get_movement_cost_pos])

lemma get_neighbors_step:
  "q \<in> set (get_neighbors g p) \<longleftrightarrow> q \<in> set (adjacent_in_order p) \<and> step_allowed g p q"
  by (simp add: get_neighbors_filter)

lemma path_between_single: "is_walkable g a \<Longrightarrow> path_between g a a [a]"
  by (simp add: path_between_def)

lemma path_between_snoc:
  assumes "path_between g a p ps" "q \<in> set (get_neighbors g p)"
  shows "path_between g a q (ps @ [q])"
    and "total_cost (ps @ [q]) = total_cost ps + get_movement_cost p q"
  using assms
  by (auto simp: path_between_def successively_append_iff get_neighbors_step total_cost_snoc)

lemma node_ok_path:
  assumes "is_walkable g a" "node_ok g a n"
  shows "path_between g a (position n) (reconstruct_path n)
    \<and> total_cost (reconstruct_path n) = g_score n"
  using assms(2)
proof (induction n rule: parent_chain.induct)
  case (1 f p gs h)
  with assms(1) show ?case
    by (simp add: reconstruct_path_def path_between_def)
next
  case (2 f p gs h n)
  then have ih: "path_between g a (position n) (reconstruct_path n)"
    "total_cost (reconstruct_path n) = g_score n"
    and nb: "p \<in> set (get_neighbors g (position n))"
    and gs: "gs = g_score n + get_movement_cost (position n) p"
    by simp_all
  from path_between_snoc [OF ih(1) nb] ih(2) gs show ?case
    by (simp add: reconstruct_path_def)
qed

lemma found_is_path:
  assumes wa: "is_walkable g a" and fr: "frontier_ok g a t" and ne: "open_set t \<noteq> []"
    and body: "loop_body b cb el t = Return path t'"
  shows "path_between g a b path"
    and "total_cost path = g_score (fst (pop_phase t))"
proof -
  from heappop_fst_mem [OF ne] fr have "node_ok g a (fst (pop_phase t))"
    by (auto simp: frontier_ok_def)
  from node_ok_path [OF wa this] loop_body_Return(2,3) [OF body]
  show "path_between g a b path" and "total_cost path = g_score (fst (pop_phase t))"
    by simp_all
qed

lemma path_from_isolated:
  assumes "path_between g a b ps" "get_neighbors g a = []"
  shows "b = a"
proof (cases ps)
  case Nil
  with assms(1) show ?thesis by (simp add: path_between_def)
next
  case (Cons p qs)
  show ?thesis
  proof (cases qs)
    case Nil
    with Cons assms(1) show ?thesis by (auto simp: path_between_def)
  next
    case (Cons q rs)
    with \<open>ps = p # qs\<close> assms(1) have "q \<in> set (get_neighbors g a)"
      by (auto simp: path_between_def get_neighbors_step)
    with assms(2) show ?thesis by simp
  qed
qed

section \<open>The heuristic is consistent; the popped node is optimal\<close>

lemma movement_cost_adjacent:
  assumes "q \<in> set (adjacent_in_order p)"
  shows "get_movement_cost p q =
     sqrt ((real_of_int (fst q - fst p))\<^sup>2 + (real_of_int (snd q - snd p))\<^sup>2)"
  using assms by (cases p; cases q) (auto simp: adjacent_in_order_def get_movement_cost_def)

lemma heuristic_consistent:
  assumes "q \<in> set (get_neighbors g p)"
  shows "heuristic p b \<le> get_movement_cost p q + heuristic q b"
proof -
  from assms have adj: "q \<in> set (adjacent_in_order p)"
    by (simp add: get_neighbors_step)
  obtain px py qx qy bx "by" where p: "p = (px, py)" and q: "q = (qx, qy)" and b: "b = (bx, by)"
    by (cases p; cases q; cases b) blast
  let ?a = "real_of_int (qx - px)" and ?b = "real_of_int (qy - py)"
  let ?c = "real_of_int (bx - qx)" and ?d = "real_of_int (by - qy)"
  have "heuristic p b = sqrt ((?a + ?c)\<^sup>2 + (?b + ?d)\<^sup>2)"
    by (simp add: heuristic_def p b)
  also have "\<dots> \<le> sqrt (?a\<^sup>2 + ?b\<^sup>2) + sqrt (?c\<^sup>2 + ?d\<^sup>2)"
    by (rule real_sqrt_sum_squares_triangle_ineq)
  also have "sqrt (?a\<^sup>2 + ?b\<^sup>2) = get_movement_cost p q"
    using movement_cost_adjacent [OF adj] by (simp add: p q)
  also have "sqrt (?c\<^sup>2 + ?d\<^sup>2) = heuristic q b"
    by (simp add: heuristic_def q b)
  finally show ?thesis .
qed

lemma frontier_bound_walk:
  assumes inv: "astar_inv g a b p {} s" and ne: "ps \<noteq> []"
  shows "hd ps = a \<longrightarrow>
     successively (\<lambda>p q. q \<in> set (adjacent_in_order p) \<and> step_allowed g p q) ps \<longrightarrow>
     (last ps \<in> closed_set s \<and> (\<exists>gq. g_scores s (last ps) = Some gq \<and> gq \<le> total_cost ps))
     \<or> (\<exists>e \<in> set (open_set s). fst e \<le> total_cost ps + heuristic (last ps) b)"
  using ne
proof (induction ps rule: rev_nonempty_induct)
  case (single x)
  from inv have start: "g_scores s a = Some 0" and cov: "open_covers s" and en: "entries_ok g a b s"
    by (simp_all add: astar_inv_def)
  show ?case
  proof (intro impI)
    assume "hd [x] = a"
    then have x: "x = a" by simp
    show "(last [x] \<in> closed_set s \<and> (\<exists>gq. g_scores s (last [x]) = Some gq \<and> gq \<le> total_cost [x]))
     \<or> (\<exists>e \<in> set (open_set s). fst e \<le> total_cost [x] + heuristic (last [x]) b)"
    proof (cases "a \<in> closed_set s")
      case True
      with start x show ?thesis by simp
    next
      case False
      with start cov obtain e where e: "e \<in> set (open_set s)" "position (snd (snd e)) = a"
        "g_score (snd (snd e)) = 0"
        unfolding open_covers_def by blast
      with en have "fst e = heuristic a b"
        by (auto simp: entries_ok_def)
      with e(1) x have "\<exists>e \<in> set (open_set s). fst e \<le> total_cost [x] + heuristic (last [x]) b"
        by (intro bexI [of _ e]) simp_all
      then show ?thesis ..
    qed
  qed
next
  case (snoc q ps)
  from inv have cov: "open_covers s" and ed: "edges_relaxed g p {} s"
    by (simp_all add: astar_inv_def)
  show ?case
  proof (intro impI)
    assume hd: "hd (ps @ [q]) = a"
      and walk: "successively (\<lambda>p q. q \<in> set (adjacent_in_order p) \<and> step_allowed g p q) (ps @ [q])"
    from hd snoc.hyps have hd': "hd ps = a" by simp
    from walk snoc.hyps
    have walk': "successively (\<lambda>p q. q \<in> set (adjacent_in_order p) \<and> step_allowed g p q) ps"
      and nb: "q \<in> set (get_neighbors g (last ps))"
      by (simp_all add: successively_append_iff get_neighbors_step)
    have cost: "total_cost (ps @ [q]) = total_cost ps + get_movement_cost (last ps) q"
      by (rule total_cost_snoc [OF snoc.hyps])
    from snoc.IH hd' walk'
    consider (visited) gr where "last ps \<in> closed_set s" "g_scores s (last ps) = Some gr"
        "gr \<le> total_cost ps"
      | (frontier) e where "e \<in> set (open_set s)" "fst e \<le> total_cost ps + heuristic (last ps) b"
      by blast
    then show "(last (ps @ [q]) \<in> closed_set s
        \<and> (\<exists>gq. g_scores s (last (ps @ [q])) = Some gq \<and> gq \<le> total_cost (ps @ [q])))
     \<or> (\<exists>e \<in> set (open_set s). fst e \<le> total_cost (ps @ [q]) + heuristic (last (ps @ [q])) b)"
    proof cases
      case visited
      from ed visited(1) nb visited(2) obtain gq where gq: "g_scores s q = Some gq"
        "gq \<le> gr + get_movement_cost (last ps) q"
        unfolding edges_relaxed_def by fastforce
      with visited(3) cost have le: "gq \<le> total_cost (ps @ [q])" by simp
      show ?thesis
      proof (cases "q \<in> closed_set s")
        case True
        with gq(1) le show ?thesis by simp
      next
        case False
        with cov gq(1) obtain e where e: "e \<in> set (open_set s)" "position (snd (snd e)) = q"
          "g_score (snd (snd e)) = gq"
          unfolding open_covers_def by blast
        from inv e have "fst e = gq + heuristic q b"
          by (auto simp: astar_inv_def entries_ok_def)
        with le e(1)
        have "\<exists>e \<in> set (open_set s). fst e \<le> total_cost (ps @ [q]) + heuristic (last (ps @ [q])) b"
          by (intro bexI [of _ e]) simp_all
        then show ?thesis ..
      qed
    next
      case frontier
      from heuristic_consistent [OF nb, of b] frontier(2) cost
      have "fst e \<le> total_cost (ps @ [q]) + heuristic q b" by simp
      with frontier(1)
      have "\<exists>e \<in> set (open_set s). fst e \<le> total_cost (ps @ [q]) + heuristic (last (ps @ [q])) b"
        by (intro bexI [of _ e]) simp_all
      then show ?thesis ..
    qed
  qed
qed

lemma frontier_bound:
  assumes "astar_inv g a b p {} s" "path_between g a q ps"
  obtains (visited) gq where "q \<in> closed_set s" "g_scores s q = Some gq" "gq \<le> total_cost ps"
  | (frontier) e where "e \<in> set (open_set s)" "fst e \<le> total_cost ps + heuristic q b"
  using frontier_bound_walk [OF assms(1), of ps] assms(2)
  by (auto simp: path_between_def)

lemma astar_inv_parts:
  assumes "astar_inv g a b p X s"
  shows "g_scores s a = Some 0" "entries_ok g a b s" "open_covers s" "closed_optimal g a s"
    "edges_relaxed g p X s" "b \<notin> closed_set s"
  using assms by (simp_all add: astar_inv_def)

lemma edges_relaxed_empty: "edges_relaxed g p {} s = edges_relaxed g p' {} s"
  by (simp add: edges_relaxed_def)

lemma astar_inv_empty: "astar_inv g a b p {} s = astar_inv g a b p' {} s"
  by (simp add: astar_inv_def edges_relaxed_empty [of g p s p'])

lemma node_ok_g_nonneg:
  assumes "is_walkable g a" "node_ok g a n"
  shows "0 \<le> g_score n"
  using node_ok_path [OF assms] total_cost_nonneg [of "reconstruct_path n"] by simp

lemma popped_entry:
  assumes "entries_ok g a b s" "open_set s \<noteq> []"
  shows "fst (heappop (open_set s)) \<in> set (open_set s)"
    and "node_ok g a (fst (pop_phase s))"
    and "fst (fst (heappop (open_set s))) =
           g_score (fst (pop_phase s)) + heuristic (position (fst (pop_phase s))) b"
    and "\<exists>gs. g_scores s (position (fst (pop_phase s))) = Some gs \<and> gs \<le> g_score (fst (pop_phase s))"
proof -
  show m: "fst (heappop (open_set s)) \<in> set (open_set s)"
    by (rule heappop_fst_mem [OF assms(2)])
  with assms(1) show "node_ok g a (fst (pop_phase s))"
    and "fst (fst (heappop (open_set s))) =
           g_score (fst (pop_phase s)) + heuristic (position (fst (pop_phase s))) b"
    and "\<exists>gs. g_scores s (position (fst (pop_phase s))) = Some gs \<and> gs \<le> g_score (fst (pop_phase s))"
    unfolding entries_ok_def by simp_all
qed

lemma popped_optimal:
  assumes inv: "astar_inv g a b p {} s" and ne: "open_set s \<noteq> []"
    and nc: "position (fst (pop_phase s)) \<notin> closed_set s"
    and path: "path_between g a (position (fst (pop_phase s))) ps"
  shows "g_score (fst (pop_phase s)) \<le> total_cost ps"
  using inv path
proof (cases rule: frontier_bound)
  case (visited gq)
  with nc show ?thesis by simp
next
  case (frontier e)
  from heappop_least [OF frontier(1)] have "fst (fst (heappop (open_set s))) \<le> fst e"
    by (rule not_entry_less_le(1))
  with popped_entry(3) [OF astar_inv_parts(2) [OF inv] ne] frontier(2) show ?thesis
    by simp
qed

lemma popped_table:
  assumes wa: "is_walkable g a" and inv: "astar_inv g a b p {} s" and ne: "open_set s \<noteq> []"
    and nc: "position (fst (pop_phase s)) \<notin> closed_set s"
  shows "g_scores s (position (fst (pop_phase s))) = Some (g_score (fst (pop_phase s)))"
proof -
  let ?cur = "fst (pop_phase s)"
  note en = astar_inv_parts(2) [OF inv]
  from popped_entry(4) [OF en ne] obtain gs where gs: "g_scores s (position ?cur) = Some gs"
    "gs \<le> g_score ?cur"
    by blast
  from astar_inv_parts(3) [OF inv] gs(1) nc obtain e where e: "e \<in> set (open_set s)"
    "position (snd (snd e)) = position ?cur" "g_score (snd (snd e)) = gs"
    unfolding open_covers_def by blast
  from en e(1) have "node_ok g a (snd (snd e))"
    by (simp add: entries_ok_def)
  from node_ok_path [OF wa this] e(2,3)
  have "path_between g a (position ?cur) (reconstruct_path (snd (snd e)))"
    "total_cost (reconstruct_path (snd (snd e))) = gs"
    by simp_all
  with popped_optimal [OF inv ne nc] have "g_score ?cur \<le> gs"
    by fastforce
  with gs show ?thesis by simp
qed

lemma heappop_keeps:
  assumes "e \<in> set h" "e \<noteq> fst (heappop h)"
  shows "e \<in> set (snd (heappop h))"
  using assms by (simp add: heappop_def Let_def)

lemma stale_astar_inv:
  assumes inv: "astar_inv g a b p {} s" and ne: "open_set s \<noteq> []"
    and cl: "position (fst (pop_phase s)) \<in> closed_set s"
  shows "astar_inv g a b p {} (snd (pop_phase s))"
proof -
  let ?s = "snd (pop_phase s)"
  have "entries_ok g a b ?s"
    using astar_inv_parts(2) [OF inv] heappop_snd_subset [of "open_set s"]
    by (auto simp: entries_ok_def)
  moreover have "open_covers ?s"
    unfolding open_covers_def
  proof (intro allI impI)
    fix q gs
    assume "g_scores ?s q = Some gs \<and> q \<notin> closed_set ?s"
    then have q: "g_scores s q = Some gs" "q \<notin> closed_set s"
      by simp_all
    with astar_inv_parts(3) [OF inv] obtain e where e: "e \<in> set (open_set s)"
      "position (snd (snd e)) = q" "g_score (snd (snd e)) = gs"
      unfolding open_covers_def by blast
    from e(2) q(2) cl have "e \<noteq> fst (heappop (open_set s))"
      by auto
    from heappop_keeps [OF e(1) this] e(2,3)
    show "\<exists>e \<in> set (open_set ?s). position (snd (snd e)) = q \<and> g_score (snd (snd e)) = gs"
      by auto
  qed
  moreover have "closed_optimal g a ?s"
    using astar_inv_parts(4) [OF inv] by (simp add: closed_optimal_def)
  moreover have "edges_relaxed g p {} ?s"
    using astar_inv_parts(5) [OF inv] by (simp add: edges_relaxed_def)
  ultimately show ?thesis
    using astar_inv_parts(1,6) [OF inv] by (simp add: astar_inv_def)
qed

lemma visit_astar_inv:
  assumes wa: "is_walkable g a" and inv: "astar_inv g a b p {} s" and ne: "open_set s \<noteq> []"
    and nc: "position (fst (pop_phase s)) \<notin> closed_set s"
    and nb: "position (fst (pop_phase s)) \<noteq> b"
  shows "astar_inv g a b (position (fst (pop_phase s)))
           (set (get_neighbors g (position (fst (pop_phase s)))))
           (visit_phase cb (fst (pop_phase s)) (snd (pop_phase s)))"
proof -
  let ?cur = "fst (pop_phase s)"
  let ?s = "visit_phase cb ?cur (snd (pop_phase s))"
  have "entries_ok g a b ?s"
    using astar_inv_parts(2) [OF inv] heappop_snd_subset [of "open_set s"]
    by (auto simp: entries_ok_def)
  moreover have "open_covers ?s"
    unfolding open_covers_def
  proof (intro allI impI)
    fix q gs
    assume "g_scores ?s q = Some gs \<and> q \<notin> closed_set ?s"
    then have q: "g_scores s q = Some gs" "q \<notin> closed_set s" "q \<noteq> position ?cur"
      by simp_all
    with astar_inv_parts(3) [OF inv] obtain e where e: "e \<in> set (open_set s)"
      "position (snd (snd e)) = q" "g_score (snd (snd e)) = gs"
      unfolding open_covers_def by blast
    from e(2) q(3) have "e \<noteq> fst (heappop (open_set s))"
      by auto
    from heappop_keeps [OF e(1) this] e(2,3)
    show "\<exists>e \<in> set (open_set ?s). position (snd (snd e)) = q \<and> g_score (snd (snd e)) = gs"
      by auto
  qed
  moreover have "closed_optimal g a ?s"
    unfolding closed_optimal_def
  proof
    fix q
    assume "q \<in> closed_set ?s"
    then consider "q = position ?cur" | "q \<in> closed_set s"
      by auto
    then show "\<exists>gs. g_scores ?s q = Some gs \<and> (\<forall>ps. path_between g a q ps \<longrightarrow> gs \<le> total_cost ps)"
    proof cases
      case 1
      with popped_table [OF wa inv ne nc] popped_optimal [OF inv ne nc] show ?thesis
        by auto
    next
      case 2
      with astar_inv_parts(4) [OF inv] show ?thesis
        by (simp add: closed_optimal_def)
    qed
  qed
  moreover have "edges_relaxed g (position ?cur) (set (get_neighbors g (position ?cur))) ?s"
    using astar_inv_parts(5) [OF inv] by (auto simp: edges_relaxed_def)
  ultimately show ?thesis
    using astar_inv_parts(1,6) [OF inv] nb by (simp add: astar_inv_def)
qed

lemma relax_cases:
  obtains (skip) "relax e cur q s = s"
      "q \<in> closed_set s
       \<or> (\<exists>best. g_scores s q = Some best
             \<and> best \<le> g_score cur + get_movement_cost (position cur) q)"
  | (push) "q \<notin> closed_set s"
      "\<And>best. g_scores s q = Some best \<Longrightarrow>
         g_score cur + get_movement_cost (position cur) q < best"
      "g_scores (relax e cur q s) =
         (g_scores s)(q \<mapsto> g_score cur + get_movement_cost (position cur) q)"
      "open_set (relax e cur q s) =
         open_set s @
           [(g_score cur + get_movement_cost (position cur) q + heuristic q e, counter s,
             Node (g_score cur + get_movement_cost (position cur) q + heuristic q e) q
               (g_score cur + get_movement_cost (position cur) q) (heuristic q e) (Some cur))]"
proof (cases "q \<in> closed_set s
       \<or> (\<exists>best. g_scores s q = Some best
             \<and> best \<le> g_score cur + get_movement_cost (position cur) q)")
  case True
  then have "relax e cur q s = s"
    by (auto simp: relax_def Let_def)
  then show ?thesis using True by (rule skip)
next
  case False
  then have nc: "q \<notin> closed_set s"
    and lt: "\<And>best. g_scores s q = Some best \<Longrightarrow>
         g_score cur + get_movement_cost (position cur) q < best"
    by (auto simp: not_le)
  have no: "\<not> (case g_scores s q of None \<Rightarrow> False
            | Some best \<Rightarrow> best \<le> g_score cur + get_movement_cost (position cur) q)"
    using False by (auto split: option.splits)
  show ?thesis
  proof (rule push [OF nc lt])
    show "g_scores (relax e cur q s) =
         (g_scores s)(q \<mapsto> g_score cur + get_movement_cost (position cur) q)"
      using nc no by (simp add: relax_def Let_def)
    show "open_set (relax e cur q s) =
         open_set s @
           [(g_score cur + get_movement_cost (position cur) q + heuristic q e, counter s,
             Node (g_score cur + get_movement_cost (position cur) q + heuristic q e) q
               (g_score cur + get_movement_cost (position cur) q) (heuristic q e) (Some cur))]"
      using nc no by (simp add: relax_def Let_def heappush_def)
  qed
qed

lemma edges_relaxed_done:
  assumes "edges_relaxed g p (insert q X) s"
    and "\<exists>gr gq. g_scores s p = Some gr \<and> g_scores s q = Some gq
           \<and> gq \<le> gr + get_movement_cost p q"
  shows "edges_relaxed g p X s"
  unfolding edges_relaxed_def
proof (intro ballI)
  fix r q'
  assume "r \<in> closed_set s" "q' \<in> set (get_neighbors g r)"
  with assms(1) have "(r = p \<and> q' \<in> insert q X)
      \<or> (\<exists>gr gq. g_scores s r = Some gr \<and> g_scores s q' = Some gq
            \<and> gq \<le> gr + get_movement_cost r q')"
    unfolding edges_relaxed_def by blast
  with assms(2)
  show "(r = p \<and> q' \<in> X)
      \<or> (\<exists>gr gq. g_scores s r = Some gr \<and> g_scores s q' = Some gq
            \<and> gq \<le> gr + get_movement_cost r q')"
    by auto
qed

lemma relax_astar_inv:
  assumes wa: "is_walkable g a" and inv: "astar_inv g a b p (insert q X) s"
    and cur: "position cur = p" "p \<in> closed_set s" "g_scores s p = Some (g_score cur)"
      "node_ok g a cur"
    and nb: "q \<in> set (get_neighbors g p)"
  shows "astar_inv g a b p X (relax b cur q s)"
    and "g_scores (relax b cur q s) p = Some (g_score cur)"
proof -
  let ?tg = "g_score cur + get_movement_cost p q"
  note parts = astar_inv_parts [OF inv]
  from node_ok_path [OF wa cur(4)] cur(1)
  have curpath: "path_between g a p (reconstruct_path cur)"
    "total_cost (reconstruct_path cur) = g_score cur"
    by simp_all
  have "astar_inv g a b p X (relax b cur q s) \<and> g_scores (relax b cur q s) p = Some (g_score cur)"
  proof (cases rule: relax_cases [of b cur q s])
    case skip
    have "\<exists>gr gq. g_scores s p = Some gr \<and> g_scores s q = Some gq
           \<and> gq \<le> gr + get_movement_cost p q"
    proof (cases "q \<in> closed_set s")
      case True
      with parts(4) obtain gq where gq: "g_scores s q = Some gq"
        "\<And>ps. path_between g a q ps \<Longrightarrow> gq \<le> total_cost ps"
        unfolding closed_optimal_def by blast
      from path_between_snoc [OF curpath(1) nb] curpath(2) gq(2)
      have "gq \<le> ?tg" by fastforce
      with gq(1) cur(3) show ?thesis by simp
    next
      case False
      with skip(2) cur(1,3) show ?thesis by auto
    qed
    from edges_relaxed_done [OF parts(5) this] parts cur(3) skip(1) show ?thesis
      by (simp add: astar_inv_def)
  next
    case push
    let ?s = "relax b cur q s"
    let ?new = "(?tg + heuristic q b, counter s,
             Node (?tg + heuristic q b) q ?tg (heuristic q b) (Some cur))"
    from push(3,4) cur(1) have gs': "g_scores ?s = (g_scores s)(q \<mapsto> ?tg)"
      and os': "open_set ?s = open_set s @ [?new]"
      by simp_all
    have tg0: "0 \<le> ?tg"
      using node_ok_g_nonneg [OF wa cur(4)] get_movement_cost_pos [of p q] by simp
    have qa: "q \<noteq> a"
    proof
      assume "q = a"
      with push(2) [of 0] parts(1) cur(1) tg0 show False by simp
    qed
    from push(1) cur(2) have qp: "q \<noteq> p" by auto
    have start: "g_scores ?s a = Some 0"
      using parts(1) qa by (simp add: gs')
    have en: "entries_ok g a b ?s"
      unfolding entries_ok_def os'
    proof
      fix e
      assume "e \<in> set (open_set s @ [?new])"
      then consider "e \<in> set (open_set s)" | "e = ?new" by auto
      then show "node_ok g a (snd (snd e))
        \<and> fst e = g_score (snd (snd e)) + heuristic (position (snd (snd e))) b
        \<and> (\<exists>gs. g_scores ?s (position (snd (snd e))) = Some gs \<and> gs \<le> g_score (snd (snd e)))"
      proof cases
        case 1
        with parts(2) obtain gs where old: "node_ok g a (snd (snd e))"
          "fst e = g_score (snd (snd e)) + heuristic (position (snd (snd e))) b"
          "g_scores s (position (snd (snd e))) = Some gs" "gs \<le> g_score (snd (snd e))"
          unfolding entries_ok_def by blast
        show ?thesis
        proof (cases "position (snd (snd e)) = q")
          case True
          with old(3) push(2) [of gs] cur(1) have "?tg < gs" by simp
          with old True show ?thesis by (simp add: gs')
        next
          case False
          with old show ?thesis by (simp add: gs')
        qed
      next
        case 2
        with cur(1,4) nb show ?thesis by (simp add: gs')
      qed
    qed
    have cov: "open_covers ?s"
      unfolding open_covers_def
    proof (intro allI impI)
      fix q' gs
      assume "g_scores ?s q' = Some gs \<and> q' \<notin> closed_set ?s"
      then have q': "g_scores ?s q' = Some gs" "q' \<notin> closed_set s" by simp_all
      show "\<exists>e \<in> set (open_set ?s). position (snd (snd e)) = q' \<and> g_score (snd (snd e)) = gs"
      proof (cases "q' = q")
        case True
        with q'(1) have "gs = ?tg" by (simp add: gs')
        with True show ?thesis by (simp add: os')
      next
        case False
        with q'(1) have "g_scores s q' = Some gs" by (simp add: gs')
        with parts(3) q'(2) obtain e where "e \<in> set (open_set s)"
          "position (snd (snd e)) = q'" "g_score (snd (snd e)) = gs"
          unfolding open_covers_def by blast
        then show ?thesis by (auto simp: os')
      qed
    qed
    have opt: "closed_optimal g a ?s"
      unfolding closed_optimal_def
    proof
      fix r
      assume "r \<in> closed_set ?s"
      then have r: "r \<in> closed_set s" by simp
      with push(1) have "r \<noteq> q" by auto
      with parts(4) r
      show "\<exists>gs. g_scores ?s r = Some gs \<and> (\<forall>ps. path_between g a r ps \<longrightarrow> gs \<le> total_cost ps)"
        by (simp add: closed_optimal_def gs')
    qed
    have ed: "edges_relaxed g p X ?s"
      unfolding edges_relaxed_def
    proof (intro ballI)
      fix r q'
      assume "r \<in> closed_set ?s" and nb': "q' \<in> set (get_neighbors g r)"
      then have r: "r \<in> closed_set s" by simp
      with push(1) have rq: "r \<noteq> q" by auto
      from parts(5) r nb' have old: "(r = p \<and> q' \<in> insert q X)
          \<or> (\<exists>gr gq. g_scores s r = Some gr \<and> g_scores s q' = Some gq
                \<and> gq \<le> gr + get_movement_cost r q')"
        unfolding edges_relaxed_def by blast
      show "(r = p \<and> q' \<in> X)
          \<or> (\<exists>gr gq. g_scores ?s r = Some gr \<and> g_scores ?s q' = Some gq
                \<and> gq \<le> gr + get_movement_cost r q')"
      proof (cases "q' = q")
        case True
        show ?thesis
        proof (cases "r = p")
          case True
          with \<open>q' = q\<close> cur(3) qp show ?thesis by (simp add: gs')
        next
          case False
          with old True obtain gr gq where o: "g_scores s r = Some gr" "g_scores s q = Some gq"
            "gq \<le> gr + get_movement_cost r q"
            by auto
          from push(2) [OF o(2)] cur(1) have "?tg < gq" by simp
          with o rq True show ?thesis by (simp add: gs')
        qed
      next
        case False
        with old rq show ?thesis by (auto simp: gs')
      qed
    qed
    from start en cov opt ed parts(6) cur(3) qp show ?thesis
      by (simp add: astar_inv_def gs')
  qed
  then show "astar_inv g a b p X (relax b cur q s)"
    and "g_scores (relax b cur q s) p = Some (g_score cur)"
    by simp_all
qed

lemma fold_relax_astar_inv:
  assumes wa: "is_walkable g a"
    and cur: "position cur = p" "node_ok g a cur"
    and nbs: "set qs \<subseteq> set (get_neighbors g p)"
    and inv: "astar_inv g a b p (set qs) s"
    and cl: "p \<in> closed_set s" "g_scores s p = Some (g_score cur)"
  shows "astar_inv g a b p {} (fold (relax b cur) qs s)"
  using nbs inv cl
proof (induction qs arbitrary: s)
  case Nil
  then show ?case by simp
next
  case (Cons q qs)
  from Cons.prems(2) have inv': "astar_inv g a b p (insert q (set qs)) s"
    by simp
  from Cons.prems(1) have nb: "q \<in> set (get_neighbors g p)" and rest: "set qs \<subseteq> set (get_neighbors g p)"
    by simp_all
  note step = relax_astar_inv [OF wa inv' cur(1) Cons.prems(3,4) cur(2) nb]
  from Cons.IH [OF rest step(1) _ step(2)] Cons.prems(3) show ?case
    by simp
qed

lemma loop_body_astar_inv:
  assumes wa: "is_walkable g a" and fr: "frontier_ok g a u" and inv: "astar_inv g a b a {} u"
    and ne: "open_set u \<noteq> []" and body: "loop_body b cb el u = Continue u'"
  shows "astar_inv g a b a {} u'"
  using body
proof (cases rule: loop_body_Continue)
  case stale
  with stale_astar_inv [OF inv ne] show ?thesis by simp
next
  case expand
  let ?cur = "fst (pop_phase u)"
  let ?p = "position ?cur"
  from fr have gr: "grid u = g" by (simp add: frontier_ok_def)
  note vis = visit_astar_inv [OF wa inv ne expand(1,2), of cb]
  have tab: "g_scores (visit_phase cb ?cur (snd (pop_phase u))) ?p = Some (g_score ?cur)"
    using popped_table [OF wa inv ne expand(1)] by simp
  have ok: "node_ok g a ?cur"
    by (rule popped_entry(2) [OF astar_inv_parts(2) [OF inv] ne])
  have "astar_inv g a b ?p {} u'"
    unfolding expand(3) gr
    by (rule fold_relax_astar_inv [OF wa refl ok subset_refl vis _ tab]) simp
  then show ?thesis
    by (rule iffD1 [OF astar_inv_empty])
qed

lemma initial_astar_inv: "astar_inv g a b a {} (initial_state g a b st ob)"
  by (simp add: astar_inv_def entries_ok_def open_covers_def closed_optimal_def
      edges_relaxed_def)

lemma run_astar_inv:
  assumes "is_walkable g a" "loop_state b cb el n (initial_state g a b st ob) = Some t"
  shows "frontier_ok g a t \<and> astar_inv g a b a {} t"
  using assms
proof (rule run_invariant)
  show "astar_inv g a b a {} (initial_state g a b st ob)"
    by (rule initial_astar_inv)
qed (rule loop_body_astar_inv [OF assms(1)])

section \<open>Concrete runs\<close>

lemma grid_1x1_eq:
  "grid_1x1 = \<lparr>width = 1, height = 1, cells = [[EMPTY]], grid_start = None, grid_end = None\<rparr>"
  by (simp add: grid_1x1_def Grid_init_def)

lemma grid_wall_eq:
  "grid_wall = \<lparr>width = 3, height = 1, cells = [[EMPTY, OBSTACLE, EMPTY]],
     grid_start = None, grid_end = None\<rparr>"
  by (simp add: grid_wall_def Grid_init_def set_cell_def is_valid_def eval_nat_numeral)

lemma grid_corner_eq:
  "grid_corner = \<lparr>width = 2, height = 2, cells = [[EMPTY, OBSTACLE], [OBSTACLE, EMPTY]],
     grid_start = None, grid_end = None\<rparr>"
  by (simp add: grid_corner_def Grid_init_def set_cell_def is_valid_def eval_nat_numeral)

lemma heuristic_same [simp]: "heuristic s s = 0"
  by (cases s) (simp add: heuristic_def)

lemma run_start_is_end:
  assumes "is_walkable g s"
  shows "find_path_run g s s cb ob st el =
     Some (Found [s]
       ((visit_phase cb (Node 0 s 0 0 None)
           ((initial_state g s s st ob)\<lparr>stats := map_option (stats_tick 1) st, open_set := []\<rparr>))
        \<lparr>stats := map_option (found_stats [s] (Node 0 s 0 0 None) el)
           (map_option (\<lambda>r. r\<lparr>nodes_explored := nodes_explored r + 1\<rparr>)
              (map_option (stats_tick 1) st))\<rparr>))"
proof -
  let ?s0 = "initial_state g s s st ob"
  let ?n = "Node 0 s 0 0 None"
  have pop: "pop_phase ?s0 = (?n, ?s0\<lparr>stats := map_option (stats_tick 1) st, open_set := []\<rparr>)"
    by (simp add: pop_phase_def Let_def heappop_def)
  have body: "loop_body s cb el ?s0 =
      Return [s] ((visit_phase cb ?n (?s0\<lparr>stats := map_option (stats_tick 1) st, open_set := []\<rparr>))
        \<lparr>stats := map_option (found_stats [s] ?n el)
           (map_option (\<lambda>r. r\<lparr>nodes_explored := nodes_explored r + 1\<rparr>)
              (map_option (stats_tick 1) st))\<rparr>)"
    by (simp add: loop_body_def pop Let_def reconstruct_path_def)
  have "find_path_run g s s cb ob st el = search_loop s cb el ?s0"
    using assms by (simp add: find_path_run_def)
  also have "\<dots> = Some (Found [s]
      ((visit_phase cb ?n (?s0\<lparr>stats := map_option (stats_tick 1) st, open_set := []\<rparr>))
        \<lparr>stats := map_option (found_stats [s] ?n el)
           (map_option (\<lambda>r. r\<lparr>nodes_explored := nodes_explored r + 1\<rparr>)
              (map_option (stats_tick 1) st))\<rparr>))"
    by (subst search_loop.simps) (simp add: body)
  finally show ?thesis .
qed

lemma grid_1x1_facts: "wf_grid grid_1x1" "is_walkable grid_1x1 (0, 0)"
  by (simp_all add: grid_1x1_eq wf_grid_def is_walkable_def is_valid_def)

lemma grid_wall_facts: "wf_grid grid_wall" "is_walkable grid_wall (0, 0)"
  "is_walkable grid_wall (2, 0)" "get_neighbors grid_wall (0, 0) = []"
  by (simp_all add: grid_wall_eq wf_grid_def is_walkable_def is_valid_def get_neighbors_filter
      adjacent_in_order_def step_allowed_def)

lemma grid_wall_first_iteration:
  "loop_body (2, 0) None 0
     (initial_state grid_wall (0, 0) (2, 0) (Some AlgorithmStats_init) ())
   = Continue
       \<lparr>grid = grid_wall, open_set = [], counter = 1, g_scores = [(0, 0) \<mapsto> 0],
        closed_set = {(0, 0)},
        node_map = [(0, 0) \<mapsto> Node 2 (0, 0) 0 2 None],
        open_positions = {},
        stats = Some (AlgorithmStats_init\<lparr>iterations := 1, nodes_in_open := 1,
                        max_open_size := 1, nodes_explored := 1\<rparr>),
        observer_state = ()\<rparr>"
  by (simp add: loop_body_def pop_phase_def visit_phase_def heappop_def Let_def
      initial_state_def heappush_def heuristic_def grid_wall_facts stats_tick_def
      AlgorithmStats_init_def)

lemma grid_2x1_eq:
  "grid_2x1 = \<lparr>width = 2, height = 1, cells = [[EMPTY, EMPTY]], grid_start = None, grid_end = None\<rparr>"
  by (simp add: grid_2x1_def Grid_init_def eval_nat_numeral)

lemma grid_2x1_facts: "wf_grid grid_2x1" "is_walkable grid_2x1 (0, 0)" "is_walkable grid_2x1 (1, 0)"
  "path_between grid_2x1 (0, 0) (1, 0) [(0, 0), (1, 0)]" "total_cost [(0, 0), (1, 0)] = 1"
  by (simp_all add: grid_2x1_eq wf_grid_def is_walkable_def is_valid_def path_between_def
      adjacent_in_order_def step_allowed_def get_movement_cost_def)



lemma sqrt_facts: "sqrt 2 + sqrt 2 < 1 + sqrt 5" "sqrt 2 < 3 / 2" "2 < sqrt 5" "1 < sqrt 2"
proof -
  show a: "sqrt 2 < 3 / 2"
    by (rule real_less_lsqrt) (simp_all add: power2_eq_square)
  show b: "2 < sqrt 5"
    by (rule real_less_rsqrt) simp
  from a b show "sqrt 2 + sqrt 2 < 1 + sqrt 5"
    by simp
  show "1 < sqrt 2"
    by simp
qed


lemma grid_pocket_eq:
  "grid_pocket = \<lparr>width = 3, height = 3,
      cells = [[EMPTY, OBSTACLE, EMPTY], [OBSTACLE, EMPTY, OBSTACLE], [EMPTY, EMPTY, EMPTY]],
      grid_start = None, grid_end = None\<rparr>"
  by (simp add: grid_pocket_def Grid_init_def set_cell_def is_valid_def eval_nat_numeral)

lemma grid_pocket_facts: "wf_grid grid_pocket" "is_walkable grid_pocket (0, 2)"
  "is_walkable grid_pocket (0, 0)"
  "get_neighbors grid_pocket (0, 2) = [(1, 2), (1, 1)]"
  "get_neighbors grid_pocket (1, 1) = [(1, 2), (0, 2), (2, 2)]"
  "get_neighbors grid_pocket (1, 2) = [(1, 1), (0, 2), (2, 2)]"
  "get_neighbors grid_pocket (2, 2) = [(1, 2), (1, 1)]"
  by (simp_all add: grid_pocket_eq wf_grid_def is_walkable_def is_valid_def get_neighbors_filter
      adjacent_in_order_def step_allowed_def)

lemma sqrt_more: "sqrt 5 < 3" "2 < sqrt 8" "7 / 5 < sqrt 2"
proof -
  show "7 / 5 < sqrt 2"
    by (rule real_less_rsqrt) (simp add: power2_eq_square)
  show "sqrt 5 < 3"
    by (rule real_less_lsqrt) simp_all
  show "2 < sqrt 8"
    by (rule real_less_rsqrt) simp
qed

lemma grid_pocket_run:
  defines "s0 \<equiv> initial_state grid_pocket (0, 2) (0, 0) None ([] :: pyarg list list)"
  defines "n0 \<equiv> Node 2 (0, 2) 0 2 None"
  defines "n12 \<equiv> Node (1 + sqrt 5) (1, 2) 1 (sqrt 5) (Some n0)"
  defines "n11 \<equiv> Node (sqrt 2 + sqrt 2) (1, 1) (sqrt 2) (sqrt 2) (Some n0)"
  defines "n22 \<equiv> Node (sqrt 2 + sqrt 2 + sqrt 8) (2, 2) (sqrt 2 + sqrt 2) (sqrt 8) (Some n11)"
  defines "n22b \<equiv> Node (2 + sqrt 8) (2, 2) 2 (sqrt 8) (Some n12)"
  defines "c1 \<equiv> [PosSet {}, PosSet {(0, 2)}, PyNone, NodeTable [(0, 2) \<mapsto> n0], Position (0, 2)]"
  defines "c2 \<equiv> [PosSet {(1, 2)}, PosSet {(1, 1), (0, 2)}, PyNone,
                  NodeTable [(0, 2) \<mapsto> n0, (1, 2) \<mapsto> n12, (1, 1) \<mapsto> n11], Position (1, 1)]"
  defines "c3 \<equiv> [PosSet {(2, 2)}, PosSet {(1, 2), (1, 1), (0, 2)}, PyNone,
                  NodeTable [(0, 2) \<mapsto> n0, (1, 2) \<mapsto> n12, (1, 1) \<mapsto> n11, (2, 2) \<mapsto> n22],
                  Position (1, 2)]"
  defines "c4 \<equiv> [PosSet {}, PosSet {(2, 2), (1, 2), (1, 1), (0, 2)}, PyNone,
                  NodeTable [(0, 2) \<mapsto> n0, (1, 2) \<mapsto> n12, (1, 1) \<mapsto> n11, (2, 2) \<mapsto> n22b],
                  Position (2, 2)]"
  shows "\<exists>t. loop_state (0, 0) (Some record_call) 0 4 s0 = Some t
     \<and> open_set t = [(sqrt 2 + sqrt 2 + sqrt 8, 3, n22)]
     \<and> closed_set t = {(2, 2), (1, 2), (1, 1), (0, 2)}
     \<and> open_positions t = {}
     \<and> observer_state t = [c1, c2, c3, c4]"
proof -
  let ?cb = "Some record_call"
  define t1 where "t1 =
    \<lparr>grid = grid_pocket,
     open_set = [(1 + sqrt 5, 1, n12), (sqrt 2 + sqrt 2, 2, n11)],
     counter = 3,
     g_scores = [(0, 2) \<mapsto> 0, (1, 2) \<mapsto> 1, (1, 1) \<mapsto> sqrt 2],
     closed_set = {(0, 2)},
     node_map = [(0, 2) \<mapsto> n0, (1, 2) \<mapsto> n12, (1, 1) \<mapsto> n11],
     open_positions = {(1, 1), (1, 2)},
     stats = None,
     observer_state = [c1]\<rparr>"
  define t2 where "t2 =
    \<lparr>grid = grid_pocket,
     open_set = [(1 + sqrt 5, 1, n12), (sqrt 2 + sqrt 2 + sqrt 8, 3, n22)],
     counter = 4,
     g_scores = [(0, 2) \<mapsto> 0, (1, 2) \<mapsto> 1, (1, 1) \<mapsto> sqrt 2, (2, 2) \<mapsto> sqrt 2 + sqrt 2],
     closed_set = {(1, 1), (0, 2)},
     node_map = [(0, 2) \<mapsto> n0, (1, 2) \<mapsto> n12, (1, 1) \<mapsto> n11, (2, 2) \<mapsto> n22],
     open_positions = {(2, 2), (1, 2)},
     stats = None,
     observer_state = [c1, c2]\<rparr>"
  define t3 where "t3 =
    \<lparr>grid = grid_pocket,
     open_set = [(sqrt 2 + sqrt 2 + sqrt 8, 3, n22), (2 + sqrt 8, 4, n22b)],
     counter = 5,
     g_scores = [(0, 2) \<mapsto> 0, (1, 2) \<mapsto> 1, (1, 1) \<mapsto> sqrt 2, (2, 2) \<mapsto> 2],
     closed_set = {(1, 2), (1, 1), (0, 2)},
     node_map = [(0, 2) \<mapsto> n0, (1, 2) \<mapsto> n12, (1, 1) \<mapsto> n11, (2, 2) \<mapsto> n22b],
     open_positions = {(2, 2)},
     stats = None,
     observer_state = [c1, c2, c3]\<rparr>"
  define t4 where "t4 =
    \<lparr>grid = grid_pocket,
     open_set = [(sqrt 2 + sqrt 2 + sqrt 8, 3, n22)],
     counter = 5,
     g_scores = [(0, 2) \<mapsto> 0, (1, 2) \<mapsto> 1, (1, 1) \<mapsto> sqrt 2, (2, 2) \<mapsto> 2],
     closed_set = {(2, 2), (1, 2), (1, 1), (0, 2)},
     node_map = [(0, 2) \<mapsto> n0, (1, 2) \<mapsto> n12, (1, 1) \<mapsto> n11, (2, 2) \<mapsto> n22b],
     open_positions = {},
     stats = None,
     observer_state = [c1, c2, c3, c4]\<rparr>"
  note defs = loop_body_def pop_phase_def visit_phase_def heappop_def Let_def heappush_def
    heuristic_def get_movement_cost_def relax_def record_call_def entry_less_def
    grid_pocket_facts
  note nodes = n0_def n12_def n11_def n22_def n22b_def c1_def c2_def c3_def c4_def
  have b0: "loop_body (0, 0) ?cb 0 s0 = Continue t1"
    using sqrt_facts sqrt_more
    by (simp add: defs s0_def initial_state_def t1_def nodes)
  have b1: "loop_body (0, 0) ?cb 0 t1 = Continue t2"
    using sqrt_facts sqrt_more
    by (simp add: defs t1_def t2_def nodes)
  have b2: "loop_body (0, 0) ?cb 0 t2 = Continue t3"
    using sqrt_facts sqrt_more
    by (auto simp add: defs t2_def t3_def nodes)
  have b3: "loop_body (0, 0) ?cb 0 t3 = Continue t4"
    using sqrt_facts sqrt_more
    by (auto simp add: defs t3_def t4_def nodes)
  have "loop_state (0, 0) ?cb 0 0 s0 = Some s0"
    by simp
  from loop_state_Suc_end [OF this _ b0] have "loop_state (0, 0) ?cb 0 1 s0 = Some t1"
    by (simp add: s0_def)
  from loop_state_Suc_end [OF this _ b1] have "loop_state (0, 0) ?cb 0 2 s0 = Some t2"
    by (simp add: t1_def numeral_2_eq_2)
  from loop_state_Suc_end [OF this _ b2] have "loop_state (0, 0) ?cb 0 3 s0 = Some t3"
    by (simp add: t2_def numeral_3_eq_3)
  from loop_state_Suc_end [OF this _ b3] have "loop_state (0, 0) ?cb 0 4 s0 = Some t4"
    by (simp add: t3_def eval_nat_numeral)
  then show ?thesis
    by (intro exI [of _ t4]) (simp add: t4_def)
qed

section \<open>Claims about the grid and the immediate exits\<close>

text \<open>
  C3. For every grid and position \<open>(x, y)\<close>, \<open>get_neighbors\<close> returns exactly the
  adjacent positions that are walkable, in the fixed order up, down, left, right and
  then the four diagonals, a diagonal one only when one of the two orthogonal cells
  \<open>(x + dx, y)\<close>, \<open>(x, y + dy)\<close> is walkable: with both blocked the diagonal
  position is left out, walkable or not.
\<close>

theorem get_neighbors_rule:
  assumes "wf_grid g"
  shows "get_neighbors g (x, y) =
     filter (\<lambda>(nx, ny). is_walkable g (nx, ny)
               \<and> (nx \<noteq> x \<and> ny \<noteq> y \<longrightarrow> is_walkable g (nx, y) \<or> is_walkable g (x, ny)))
       [(x, y - 1), (x, y + 1), (x - 1, y), (x + 1, y),
        (x - 1, y - 1), (x - 1, y + 1), (x + 1, y - 1), (x + 1, y + 1)]
    \<and> (dx \<noteq> 0 \<and> dy \<noteq> 0 \<and> \<not> is_walkable g (x + dx, y) \<and> \<not> is_walkable g (x, y + dy)
      \<longrightarrow> (x + dx, y + dy) \<notin> set (get_neighbors g (x, y)))"
  by (auto simp: get_neighbors_def directions_def neighbor_step_def Let_def)

theorem get_neighbors_rule_witness:
  "wf_grid grid_corner \<and> is_walkable grid_corner (1, 1)
   \<and> \<not> is_walkable grid_corner (1, 0) \<and> \<not> is_walkable grid_corner (0, 1)
   \<and> get_neighbors grid_corner (0, 0) = []
   \<and> (1, 1) \<notin> set (get_neighbors grid_corner (0, 0))"
proof -
  have wf: "wf_grid grid_corner"
    by (simp add: grid_corner_eq wf_grid_def)
  have w: "is_walkable grid_corner (1, 1)" "\<not> is_walkable grid_corner (1, 0)"
    "\<not> is_walkable grid_corner (0, 1)"
    by (simp_all add: grid_corner_eq is_walkable_def is_valid_def)
  from get_neighbors_rule [OF wf, of 0 0 1 1, THEN conjunct1]
  have "get_neighbors grid_corner (0, 0) = []"
    by (simp add: grid_corner_eq is_walkable_def is_valid_def)
  moreover from get_neighbors_rule [OF wf, of 0 0 1 1, THEN conjunct2] w
  have "(1, 1) \<notin> set (get_neighbors grid_corner (0, 0))"
    by simp
  ultimately show ?thesis using wf w by simp
qed

text \<open>
  C6. When start or end is not walkable (out of bounds included), \<open>find_path\<close>
  returns None at once: the call ends before any search state exists, so nothing is
  pushed or popped, and the statistics record and the observer are left as they were.
\<close>

theorem find_path_rejects:
  assumes "wf_grid g" and "\<not> is_walkable g a \<or> \<not> is_walkable g b"
  shows "find_path g a b cb ob st el = Some None
    \<and> find_path_run g a b cb ob st el = Some (Rejected g st ob)
    \<and> stats_after (the (find_path_run g a b cb ob st el)) = st
    \<and> observer_after (the (find_path_run g a b cb ob st el)) = ob"
  using assms(2) by (simp add: find_path_def find_path_run_def)

theorem find_path_rejects_witness:
  "wf_grid grid_1x1 \<and> \<not> is_walkable grid_1x1 (5, 5)
   \<and> find_path grid_1x1 (5, 5) (0, 0) None () (Some AlgorithmStats_init) 0 = Some None
   \<and> find_path_run grid_1x1 (5, 5) (0, 0) None () (Some AlgorithmStats_init) 0
       = Some (Rejected grid_1x1 (Some AlgorithmStats_init) ())"
proof -
  have wf: "wf_grid grid_1x1"
    by (simp add: grid_1x1_eq wf_grid_def)
  have nw: "\<not> is_walkable grid_1x1 (5, 5)"
    by (simp add: grid_1x1_eq is_walkable_def is_valid_def)
  then have "\<not> is_walkable grid_1x1 (5, 5) \<or> \<not> is_walkable grid_1x1 (0, 0)"
    by simp
  from find_path_rejects [OF wf this, of None "()" "Some AlgorithmStats_init" 0] wf nw
  show ?thesis
    by simp
qed

text \<open>
  C5. For a walkable position \<open>s\<close>, \<open>find_path\<close> from \<open>s\<close> to \<open>s\<close> returns the
  path \<open>[s]\<close>, records the cost 0 and the length 1, and expands no neighbour: after
  the single iteration the frontier is empty, the counter still 1 and the table of
  g-scores holds the start alone.
\<close>

theorem find_path_start_is_end:
  assumes "wf_grid g" and "is_walkable g s"
  shows "find_path g s s cb ob st el = Some (Some [s])
    \<and> (\<exists>t. find_path_run g s s cb ob st el = Some (Found [s] t)
          \<and> open_set t = [] \<and> counter t = 1 \<and> g_scores t = [s \<mapsto> 0] \<and> closed_set t = {s}
          \<and> stats t =
              map_option
                (\<lambda>r. r\<lparr>iterations := iterations r + 1, nodes_in_open := 1,
                        max_open_size := max (max_open_size r) 1,
                        nodes_explored := nodes_explored r + 1,
                        path_length := 1, path_cost := 0, execution_time := el\<rparr>) st)"
  by (cases st)
     (simp_all add: find_path_def run_start_is_end [OF assms(2)] found_stats_def stats_tick_def)

theorem find_path_start_is_end_witness:
  "wf_grid grid_1x1 \<and> is_walkable grid_1x1 (0, 0)
   \<and> find_path grid_1x1 (0, 0) (0, 0) None () (Some AlgorithmStats_init) 0 = Some (Some [(0, 0)])"
proof -
  have wf: "wf_grid grid_1x1"
    by (simp add: grid_1x1_eq wf_grid_def)
  have w: "is_walkable grid_1x1 (0, 0)"
    by (simp add: grid_1x1_eq is_walkable_def is_valid_def)
  from find_path_start_is_end [OF wf w, of None "()" "Some AlgorithmStats_init" 0] wf w
  show ?thesis
    by simp
qed



section \<open>Claims about the observer and the statistics\<close>



text \<open>
  C7, as the code has it. The observer is called once for every expansion and never
  for a stale pop. For the whole call: the calls, in their order, are the calls for the
  visited positions in the order of their expansion, each position once, the \<open>k\<close>-th
  call carrying the positions visited up to and including the \<open>k\<close>-th; their number
  is the number of explored nodes added to the statistics. For every iteration: a pop of
  a visited position leaves the calls as they are, and the expansion of \<open>p\<close> adds
  exactly one call, with five arguments: the open positions without \<open>p\<close>, the visited
  positions with \<open>p\<close>, None, the node table as it is at the head of the iteration,
  and \<open>p\<close>.
\<close>

theorem observer_called_once_per_expansion:
  assumes "wf_grid g"
  shows "(\<exists>out ps. find_path_run g a b (Some record_call) [] st el = Some out
          \<and> distinct ps \<and> set ps = visited_after out
          \<and> length (observer_after out) = length ps
          \<and> (\<forall>k < length ps.
                call_for (observer_after out ! k) (set (take (Suc k) ps)) (ps ! k))
          \<and> length (observer_after out) = card (visited_after out)
          \<and> (\<forall>st0. st = Some st0 \<longrightarrow>
               (\<exists>r. stats_after out = Some r
                  \<and> nodes_explored r = nodes_explored st0 + int (length (observer_after out)))))
     \<and> (\<forall>n t. loop_state b (Some record_call) el n (initial_state g a b st []) = Some t
                \<and> open_set t \<noteq> [] \<longrightarrow>
          (\<exists>u. (loop_body b (Some record_call) el t = Continue u
                  \<or> (\<exists>path. loop_body b (Some record_call) el t = Return path u))
             \<and> observer_state u =
                 (if position (fst (pop_phase t)) \<in> closed_set t then observer_state t
                  else observer_state t @
                       [[PosSet (open_positions t - {position (fst (pop_phase t))}),
                         PosSet (insert (position (fst (pop_phase t))) (closed_set t)), PyNone,
                         NodeTable (node_map t), Position (position (fst (pop_phase t)))]])))"
proof -
  let ?cb = "Some record_call"
  let ?s0 = "initial_state g a b st ([] :: pyarg list list)"
  have init: "calls_match ?s0"
    by (simp add: calls_match_def)
  have "\<exists>out ps. find_path_run g a b ?cb [] st el = Some out
          \<and> distinct ps \<and> set ps = visited_after out
          \<and> length (observer_after out) = length ps
          \<and> (\<forall>k < length ps.
                call_for (observer_after out ! k) (set (take (Suc k) ps)) (ps ! k))
          \<and> length (observer_after out) = card (visited_after out)
          \<and> (\<forall>st0. st = Some st0 \<longrightarrow>
               (\<exists>r. stats_after out = Some r
                  \<and> nodes_explored r = nodes_explored st0 + int (length (observer_after out))))"
  proof (cases rule: find_path_run_cases [of g a b ?cb "[]" st el])
    case rejected
    then show ?thesis
      by (auto intro!: exI [of _ "[]"])
  next
    case (found n t path t')
    from run_invariant [where P = calls_match, OF found(1,3) init]
    have fr: "frontier_ok g a t" and ok: "calls_match t"
      by (auto intro: loop_body_Continue_calls_match)
    from loop_body_Return_calls_match [OF ok found(5)] have ok': "calls_match t'" .
    have "explored_ok g st0 t'" if "st = Some st0" for st0
    proof -
      from found(3) that
      have "loop_state b ?cb el n (initial_state g a b (Some st0) ([] :: pyarg list list)) = Some t"
        by simp
      from run_explored [OF found(1) this] have "explored_ok g st0 t"
        by simp
      from loop_body_Return_explored(1) [OF fr this found(5)] show ?thesis .
    qed
    from outcome_calls_match [OF ok' this, of st "Found path t'" path] found(6) show ?thesis
      by auto
  next
    case (exhausted n t)
    let ?t = "t\<lparr>stats := map_option (\<lambda>st. st\<lparr>execution_time := el\<rparr>) (stats t)\<rparr>"
    from run_invariant [where P = calls_match, OF exhausted(1,3) init]
    have fr: "frontier_ok g a t" and ok: "calls_match t"
      by (auto intro: loop_body_Continue_calls_match)
    have ok': "calls_match ?t"
      using ok by (rule calls_match_cong) simp_all
    have "explored_ok g st0 ?t" if "st = Some st0" for st0
    proof -
      from exhausted(3) that
      have "loop_state b ?cb el n (initial_state g a b (Some st0) ([] :: pyarg list list)) = Some t"
        by simp
      from run_explored [OF exhausted(1) this] have "explored_ok g st0 t"
        by simp
      then show ?thesis
        by (rule explored_ok_timed)
    qed
    from outcome_calls_match [OF ok' this, of st "Exhausted ?t"] exhausted(5) show ?thesis
      by auto
  qed
  moreover have "\<forall>n t. loop_state b ?cb el n ?s0 = Some t \<and> open_set t \<noteq> [] \<longrightarrow>
          (\<exists>u. (loop_body b ?cb el t = Continue u
                  \<or> (\<exists>path. loop_body b ?cb el t = Return path u))
             \<and> observer_state u =
                 (if position (fst (pop_phase t)) \<in> closed_set t then observer_state t
                  else observer_state t @
                       [[PosSet (open_positions t - {position (fst (pop_phase t))}),
                         PosSet (insert (position (fst (pop_phase t))) (closed_set t)), PyNone,
                         NodeTable (node_map t), Position (position (fst (pop_phase t)))]]))"
    using loop_body_call by blast
  ultimately show ?thesis
    by blast
qed

theorem observer_called_once_per_expansion_witness:
  "wf_grid grid_pocket
   \<and> (let n0 = Node 2 (0, 2) 0 2 None;
          n12 = Node (1 + sqrt 5) (1, 2) 1 (sqrt 5) (Some n0);
          n11 = Node (sqrt 2 + sqrt 2) (1, 1) (sqrt 2) (sqrt 2) (Some n0);
          n22 = Node (sqrt 2 + sqrt 2 + sqrt 8) (2, 2) (sqrt 2 + sqrt 2) (sqrt 8) (Some n11);
          n22b = Node (2 + sqrt 8) (2, 2) 2 (sqrt 8) (Some n12);
          calls =
            [[PosSet {}, PosSet {(0, 2)}, PyNone, NodeTable [(0, 2) \<mapsto> n0], Position (0, 2)],
             [PosSet {(1, 2)}, PosSet {(1, 1), (0, 2)}, PyNone,
              NodeTable [(0, 2) \<mapsto> n0, (1, 2) \<mapsto> n12, (1, 1) \<mapsto> n11], Position (1, 1)],
             [PosSet {(2, 2)}, PosSet {(1, 2), (1, 1), (0, 2)}, PyNone,
              NodeTable [(0, 2) \<mapsto> n0, (1, 2) \<mapsto> n12, (1, 1) \<mapsto> n11, (2, 2) \<mapsto> n22],
              Position (1, 2)],
             [PosSet {}, PosSet {(2, 2), (1, 2), (1, 1), (0, 2)}, PyNone,
              NodeTable [(0, 2) \<mapsto> n0, (1, 2) \<mapsto> n12, (1, 1) \<mapsto> n11, (2, 2) \<mapsto> n22b],
              Position (2, 2)]]
      in (\<exists>t u. loop_state (0, 0) (Some record_call) 0 4
                  (initial_state grid_pocket (0, 2) (0, 0) None []) = Some t
            \<and> open_set t = [(sqrt 2 + sqrt 2 + sqrt 8, 3, n22)]
            \<and> closed_set t = {(2, 2), (1, 2), (1, 1), (0, 2)}
            \<and> observer_state t = calls
            \<and> loop_body (0, 0) (Some record_call) 0 t = Continue u
            \<and> open_set u = []
            \<and> observer_state u = calls)
       \<and> (\<exists>out. find_path_run grid_pocket (0, 2) (0, 0) (Some record_call) [] None 0 = Some out
            \<and> returned out = None
            \<and> visited_after out = {(2, 2), (1, 2), (1, 1), (0, 2)}
            \<and> observer_after out = calls))"
proof -
  let ?cb = "Some record_call"
  let ?s0 = "initial_state grid_pocket (0, 2) (0, 0) None ([] :: pyarg list list)"
  let ?n0 = "Node 2 (0, 2) 0 2 None"
  let ?n12 = "Node (1 + sqrt 5) (1, 2) 1 (sqrt 5) (Some ?n0)"
  let ?n11 = "Node (sqrt 2 + sqrt 2) (1, 1) (sqrt 2) (sqrt 2) (Some ?n0)"
  let ?n22 = "Node (sqrt 2 + sqrt 2 + sqrt 8) (2, 2) (sqrt 2 + sqrt 2) (sqrt 8) (Some ?n11)"
  let ?n22b = "Node (2 + sqrt 8) (2, 2) 2 (sqrt 8) (Some ?n12)"
  let ?calls =
    "[[PosSet {}, PosSet {(0, 2)}, PyNone, NodeTable [(0, 2) \<mapsto> ?n0], Position (0, 2)],
      [PosSet {(1, 2)}, PosSet {(1, 1), (0, 2)}, PyNone,
       NodeTable [(0, 2) \<mapsto> ?n0, (1, 2) \<mapsto> ?n12, (1, 1) \<mapsto> ?n11], Position (1, 1)],
      [PosSet {(2, 2)}, PosSet {(1, 2), (1, 1), (0, 2)}, PyNone,
       NodeTable [(0, 2) \<mapsto> ?n0, (1, 2) \<mapsto> ?n12, (1, 1) \<mapsto> ?n11, (2, 2) \<mapsto> ?n22],
       Position (1, 2)],
      [PosSet {}, PosSet {(2, 2), (1, 2), (1, 1), (0, 2)}, PyNone,
       NodeTable [(0, 2) \<mapsto> ?n0, (1, 2) \<mapsto> ?n12, (1, 1) \<mapsto> ?n11, (2, 2) \<mapsto> ?n22b],
       Position (2, 2)]]"
  from grid_pocket_run obtain t where t: "loop_state (0, 0) ?cb 0 4 ?s0 = Some t"
    "open_set t = [(sqrt 2 + sqrt 2 + sqrt 8, 3, ?n22)]"
    "closed_set t = {(2, 2), (1, 2), (1, 1), (0, 2)}"
    "observer_state t = ?calls"
    by blast
  have ne: "open_set t \<noteq> []"
    by (simp add: t(2))
  have pos: "position (fst (pop_phase t)) = (2, 2)"
    by (simp add: t(2) heappop_def)
  with t(3) have stale: "position (fst (pop_phase t)) \<in> closed_set t"
    by simp
  from observer_called_once_per_expansion [OF grid_pocket_facts(1), of "(0, 2)" "(0, 0)" None 0]
  have "\<exists>u. (loop_body (0, 0) ?cb 0 t = Continue u
                \<or> (\<exists>path. loop_body (0, 0) ?cb 0 t = Return path u))
             \<and> observer_state u =
                 (if position (fst (pop_phase t)) \<in> closed_set t then observer_state t
                  else observer_state t @
                       [[PosSet (open_positions t - {position (fst (pop_phase t))}),
                         PosSet (insert (position (fst (pop_phase t))) (closed_set t)), PyNone,
                         NodeTable (node_map t), Position (position (fst (pop_phase t)))]])"
    using t(1) ne by blast
  then obtain u where u: "loop_body (0, 0) ?cb 0 t = Continue u
        \<or> (\<exists>path. loop_body (0, 0) ?cb 0 t = Return path u)"
    "observer_state u = observer_state t"
    using stale by auto
  from loop_body_stale [OF stale] u(1) have body: "loop_body (0, 0) ?cb 0 t = Continue u"
    and u_eq: "u = snd (pop_phase t)"
    by auto
  have empty: "open_set u = []"
    by (simp add: u_eq t(2) heappop_def)
  have cl: "closed_set u = closed_set t"
    by (simp add: u_eq)
  from u(2) t(4) have log: "observer_state u = ?calls"
    by (rule trans)
  from loop_state_Suc_end [OF t(1) ne body] have "loop_state (0, 0) ?cb 0 (Suc 4) ?s0 = Some u" .
  from search_loop_loop_state [OF this] search_loop_exit(1) [OF empty]
  have run: "find_path_run grid_pocket (0, 2) (0, 0) ?cb [] None 0 =
      Some (Exhausted (u\<lparr>stats := map_option (\<lambda>st. st\<lparr>execution_time := 0\<rparr>) (stats u)\<rparr>))"
    by (simp add: find_path_run_def grid_pocket_facts)
  let ?out = "Exhausted (u\<lparr>stats := map_option (\<lambda>st. st\<lparr>execution_time := 0\<rparr>) (stats u)\<rparr>)"
  have "visited_after ?out = {(2, 2), (1, 2), (1, 1), (0, 2)}"
    using cl t(3) by simp
  moreover have "observer_after ?out = ?calls"
    using log by simp
  moreover have "returned ?out = None"
    by simp
  ultimately have B: "\<exists>out. find_path_run grid_pocket (0, 2) (0, 0) ?cb [] None 0 = Some out
      \<and> returned out = None
      \<and> visited_after out = {(2, 2), (1, 2), (1, 1), (0, 2)}
      \<and> observer_after out = ?calls"
    using run by blast
  have A: "\<exists>t u. loop_state (0, 0) ?cb 0 4 ?s0 = Some t
            \<and> open_set t = [(sqrt 2 + sqrt 2 + sqrt 8, 3, ?n22)]
            \<and> closed_set t = {(2, 2), (1, 2), (1, 1), (0, 2)}
            \<and> observer_state t = ?calls
            \<and> loop_body (0, 0) ?cb 0 t = Continue u
            \<and> open_set u = []
            \<and> observer_state u = ?calls"
    using t body empty log by blast
  from grid_pocket_facts(1) A B show ?thesis
    unfolding Let_def by blast
qed

text \<open>
  C7, as the claim words it, fails: the call of the run from \<open>(0, 0)\<close> to itself on
  the grid of one cell has five arguments, not the four of the claim.
\<close>

theorem observer_arguments_counterexample:
  "map_option observer_after
     (find_path_run grid_1x1 (0, 0) (0, 0) (Some record_call) [] None 0)
   = Some [[PosSet {}, PosSet {(0, 0)}, PyNone,
            NodeTable [(0, 0) \<mapsto> Node 0 (0, 0) 0 0 None], Position (0, 0)]]
   \<and> map_option observer_after
     (find_path_run grid_1x1 (0, 0) (0, 0) (Some record_call) [] None 0)
   \<noteq> Some [[PosSet {}, PosSet {(0, 0)},
            NodeTable [(0, 0) \<mapsto> Node 0 (0, 0) 0 0 None], Position (0, 0)]]"
  by (simp add: run_start_is_end [OF grid_1x1_facts(2)] record_call_def)

text \<open>
  C9, as the code has it. With a statistics record whose \<open>nodes_explored\<close> is 0
  when the call starts (a fresh record, or one that was reset), at the head of every
  iteration and at the end of every iteration (the next head, or the return)
  \<open>nodes_explored\<close> is at most the number of walkable cells, and \<open>max_open_size\<close>
  does not decrease from an iteration to the next.
\<close>

theorem stats_bounds:
  assumes "wf_grid g" and wa: "is_walkable g a" and zero: "nodes_explored st0 = 0"
    and st: "loop_state b cb el n (initial_state g a b (Some st0) ob) = Some t"
  shows "\<exists>r. stats t = Some r \<and> nodes_explored r \<le> int (num_walkable g)
     \<and> (\<forall>u. open_set t \<noteq> [] \<and> loop_body b cb el t = Continue u \<longrightarrow>
           (\<exists>r'. stats u = Some r' \<and> nodes_explored r' \<le> int (num_walkable g)
              \<and> max_open_size r \<le> max_open_size r'))
     \<and> (\<forall>path u. open_set t \<noteq> [] \<and> loop_body b cb el t = Return path u \<longrightarrow>
           (\<exists>r'. stats u = Some r' \<and> nodes_explored r' \<le> int (num_walkable g)
              \<and> max_open_size r \<le> max_open_size r'))"
proof -
  from run_explored [OF wa st] have fr: "frontier_ok g a t" and ex: "explored_ok g st0 t"
    by simp_all
  have bound: "\<exists>r. stats u = Some r \<and> nodes_explored r \<le> int (num_walkable g)"
    if "explored_ok g st0 u" "closed_set u \<subseteq> {p. is_walkable g p}" for u :: "'a search_state"
  proof -
    from that(2) have "card (closed_set u) \<le> num_walkable g"
      unfolding card_walkable [symmetric] by (intro card_mono finite_walkable)
    with that(1) zero show ?thesis
      by (auto simp: explored_ok_def)
  qed
  from fr have sub: "closed_set t \<subseteq> {p. is_walkable g p}"
    by (simp add: frontier_ok_def)
  from bound [OF ex sub] obtain r where r: "stats t = Some r" "nodes_explored r \<le> int (num_walkable g)"
    by blast
  have "\<exists>r'. stats u = Some r' \<and> nodes_explored r' \<le> int (num_walkable g)
              \<and> max_open_size r \<le> max_open_size r'"
    if "open_set t \<noteq> []" "loop_body b cb el t = Continue u" for u
  proof -
    from loop_body_frontier_ok [OF fr that] have "closed_set u \<subseteq> {p. is_walkable g p}"
      by (simp add: frontier_ok_def)
    from bound [OF loop_body_Continue_explored(1) [OF fr ex that(2)] this]
      loop_body_Continue_explored(2) [OF fr ex that(2)] r
    show ?thesis by auto
  qed
  moreover have "\<exists>r'. stats u = Some r' \<and> nodes_explored r' \<le> int (num_walkable g)
              \<and> max_open_size r \<le> max_open_size r'"
    if "open_set t \<noteq> []" "loop_body b cb el t = Return path u" for path u
  proof -
    from bound [OF loop_body_Return_explored(1) [OF fr ex that(2)]
        loop_body_Return_frontier [OF fr that]]
      loop_body_Return_explored(2) [OF fr ex that(2)] r
    show ?thesis by auto
  qed
  ultimately show ?thesis
    using r by blast
qed

theorem stats_bounds_witness:
  "wf_grid grid_wall \<and> is_walkable grid_wall (0, 0) \<and> nodes_explored AlgorithmStats_init = 0
   \<and> (\<exists>t r. loop_state (2, 0) None 0 1
                (initial_state grid_wall (0, 0) (2, 0) (Some AlgorithmStats_init) ()) = Some t
          \<and> stats t = Some r \<and> nodes_explored r = 1 \<and> max_open_size r = 1
          \<and> nodes_explored r \<le> int (num_walkable grid_wall))"
proof -
  let ?s0 = "initial_state grid_wall (0, 0) (2, 0) (Some AlgorithmStats_init) ()"
  let ?t = "\<lparr>grid = grid_wall, open_set = [], counter = 1, g_scores = [(0, 0) \<mapsto> 0],
        closed_set = {(0, 0)},
        node_map = [(0, 0) \<mapsto> Node 2 (0, 0) 0 2 None],
        open_positions = {},
        stats = Some (AlgorithmStats_init\<lparr>iterations := 1, nodes_in_open := 1,
                        max_open_size := 1, nodes_explored := 1\<rparr>),
        observer_state = ()\<rparr>"
  have zero: "nodes_explored AlgorithmStats_init = 0"
    by (simp add: AlgorithmStats_init_def)
  have st: "loop_state (2, 0) None 0 1 ?s0 = Some ?t"
    by (simp add: grid_wall_first_iteration)
  from stats_bounds [OF grid_wall_facts(1,2) zero st]
  have "nodes_explored (AlgorithmStats_init\<lparr>iterations := 1, nodes_in_open := 1,
                        max_open_size := 1, nodes_explored := 1\<rparr>) \<le> int (num_walkable grid_wall)"
    by simp
  with st zero grid_wall_facts(1,2) show ?thesis
    by (intro conjI exI [of _ ?t]) simp_all
qed


text \<open>
  C9, as the claim words it, fails for a record that is not fresh: lines 193-194 only
  add to \<open>nodes_explored\<close>. On the grid of one cell, a record that comes in with
  \<open>nodes_explored = 5\<close> leaves with 6, and the grid has one walkable cell.
\<close>

theorem stats_bounds_counterexample:
  "map_option (\<lambda>out. map_option nodes_explored (stats_after out))
     (find_path_run grid_1x1 (0, 0) (0, 0) None ()
        (Some (AlgorithmStats_init\<lparr>nodes_explored := 5\<rparr>)) 0)
   = Some (Some 6)
   \<and> num_walkable grid_1x1 = 1
   \<and> \<not> (6 \<le> int (num_walkable grid_1x1))"
proof -
  have "num_walkable grid_1x1 = 1"
    by (simp add: num_walkable_def grid_1x1_eq is_walkable_def is_valid_def)
  then show ?thesis
    by (simp add: run_start_is_end [OF grid_1x1_facts(2)] found_stats_def stats_tick_def
        AlgorithmStats_init_def)
qed

section \<open>Claims about the frontier and about unreachable goals\<close>



text \<open>
  C2. When start and end are walkable and no path leads from start to end, the loop
  leaves after finitely many iterations with the frontier empty and \<open>find_path\<close>
  returns None, not a path.
\<close>

theorem find_path_unreachable:
  assumes "wf_grid g" and wa: "is_walkable g a" and wb: "is_walkable g b"
    and no: "\<not> (\<exists>ps. path_between g a b ps)"
  shows "find_path g a b cb ob st el = Some None
    \<and> (\<exists>n t. loop_state b cb el n (initial_state g a b st ob) = Some t \<and> open_set t = []
          \<and> find_path_run g a b cb ob st el =
              Some (Exhausted
                (t\<lparr>stats := map_option (\<lambda>r. r\<lparr>execution_time := el\<rparr>) (stats t)\<rparr>)))"
proof (cases rule: find_path_run_cases [of g a b cb ob st el])
  case rejected
  with wa wb show ?thesis by simp
next
  case (found n t path t')
  from run_invariant [where P = "\<lambda>u. True", OF found(1,3)] have "frontier_ok g a t"
    by simp
  from found_is_path(1) [OF wa this found(4,5)] no show ?thesis
    by blast
next
  case (exhausted n t)
  then show ?thesis
    by (auto simp: find_path_def)
qed

theorem find_path_unreachable_witness:
  "wf_grid grid_wall \<and> is_walkable grid_wall (0, 0) \<and> is_walkable grid_wall (2, 0)
   \<and> \<not> (\<exists>ps. path_between grid_wall (0, 0) (2, 0) ps)
   \<and> find_path grid_wall (0, 0) (2, 0) None () (Some AlgorithmStats_init) 0 = Some None"
proof -
  have no: "\<not> (\<exists>ps. path_between grid_wall (0, 0) (2, 0) ps)"
    using path_from_isolated [OF _ grid_wall_facts(4), of "(2, 0)"] by auto
  from find_path_unreachable [OF grid_wall_facts(1,2,3) no, of None "()" "Some AlgorithmStats_init" 0]
    no grid_wall_facts(1,2,3)
  show ?thesis by simp
qed

section \<open>The search in exact arithmetic\<close>

text \<open>
  The result of this section is about the search as this theory models it, with the
  arithmetic of the real numbers: the heuristic is then exactly consistent, and on
  a well-formed grid, for walkable start and end joined by a path of allowed moves,
  the path returned has the least cost among all such paths. The program computes
  with IEEE doubles: \<open>math.sqrt\<close>, the sums of g-scores and their comparisons round,
  and that rounding is not modelled here. The result therefore says nothing about
  ties and near-ties of the program's floating-point scores, and it does not settle
  the claim of optimality (C1) for the program.
\<close>

theorem find_path_optimal:
  assumes "wf_grid g" and wa: "is_walkable g a" and wb: "is_walkable g b"
    and conn: "\<exists>ps. path_between g a b ps"
  shows "\<exists>path t. find_path_run g a b cb ob st el = Some (Found path t)
     \<and> find_path g a b cb ob st el = Some (Some path)
     \<and> path_between g a b path
     \<and> (\<forall>ps. path_between g a b ps \<longrightarrow> total_cost path \<le> total_cost ps)
     \<and> (\<forall>r. stats t = Some r \<longrightarrow>
           path_cost r = total_cost path \<and> path_length r = int (length path))"
proof (cases rule: find_path_run_cases [of g a b cb ob st el])
  case rejected
  with wa wb show ?thesis by simp
next
  case (exhausted n t)
  from run_astar_inv [OF wa exhausted(3)] have inv: "astar_inv g a b a {} t"
    by simp
  from conn obtain ps where "path_between g a b ps" by blast
  with inv have False
  proof (cases rule: frontier_bound)
    case (visited gq)
    with astar_inv_parts(6) [OF inv] show False by simp
  next
    case (frontier e)
    with exhausted(4) show False by simp
  qed
  then show ?thesis ..
next
  case (found n t path t')
  from run_astar_inv [OF wa found(3)] have fr: "frontier_ok g a t" and inv: "astar_inv g a b a {} t"
    by simp_all
  let ?cur = "fst (pop_phase t)"
  note ret = loop_body_Return [OF found(5)]
  note isp = found_is_path [OF wa fr found(4,5)]
  have best: "total_cost path \<le> total_cost ps" if "path_between g a b ps" for ps
    using popped_optimal [OF inv found(4) ret(1)] that ret(2) isp(2) by simp
  have "path_cost r = total_cost path \<and> path_length r = int (length path)"
    if "stats t' = Some r" for r
    using that isp(2) unfolding ret(4) by (auto simp: found_stats_def)
  with found(6) isp(1) best show ?thesis
    by (simp add: find_path_def)
qed

theorem find_path_optimal_witness:
  "wf_grid grid_2x1 \<and> is_walkable grid_2x1 (0, 0) \<and> is_walkable grid_2x1 (1, 0)
   \<and> path_between grid_2x1 (0, 0) (1, 0) [(0, 0), (1, 0)]
   \<and> (\<exists>path t. find_path_run grid_2x1 (0, 0) (1, 0) None () (Some AlgorithmStats_init) 0
                  = Some (Found path t)
          \<and> path_between grid_2x1 (0, 0) (1, 0) path \<and> total_cost path \<le> 1)"
proof -
  have conn: "\<exists>ps. path_between grid_2x1 (0, 0) (1, 0) ps"
    using grid_2x1_facts(4) by blast
  from find_path_optimal [OF grid_2x1_facts(1,2,3) conn, of None "()" "Some AlgorithmStats_init" 0]
  obtain path t where "find_path_run grid_2x1 (0, 0) (1, 0) None () (Some AlgorithmStats_init) 0
                  = Some (Found path t)" "path_between grid_2x1 (0, 0) (1, 0) path"
    "\<forall>ps. path_between grid_2x1 (0, 0) (1, 0) ps \<longrightarrow> total_cost path \<le> total_cost ps"
    by blast
  with grid_2x1_facts show ?thesis
    by (intro conjI exI [of _ path] exI [of _ t]) auto
qed

end
